theory Spec2Isabelle
  imports Main
begin

section \<open>The incremental SAT front-end \<open>inc_sat_solver\<close>\<close>

text \<open>
  A shallow embedding of \<^verbatim>\<open>src/sat/sat_solver/inc_sat_solver.cpp\<close>. The class
  \<^verbatim>\<open>inc_sat_solver\<close> is a record of its data members; every member function takes the
  record and returns the updated one. The search engine (\<^verbatim>\<open>sat::solver\<close>), the
  translator \<^verbatim>\<open>goal2sat\<close>, the variable map \<^verbatim>\<open>atom2bool_var\<close> and the tactic pipeline
  are external collaborators whose code is not part of the file: their combined state is
  one opaque component \<open>m_ext\<close> of type \<open>'x\<close>, and each of their member functions
  that the file calls is a field of the record \<open>engine\<close>.

  Conventions.
  \<^item> \<^verbatim>\<open>unsigned\<close> counters and vector sizes are \<open>nat\<close>: \<^verbatim>\<open>m_num_scopes\<close> is
    incremented together with a \<^verbatim>\<open>push_back\<close> on three vectors whose sizes are
    \<^verbatim>\<open>unsigned\<close> as well, so it cannot wrap before the vectors overflow.
  \<^item> \<^verbatim>\<open>SASSERT\<close> is compiled out of release builds and is not a branch of the model;
    the condition it states is spelled out where a property is about it.
  \<^item> The member functions embedded are the constructor, \<^verbatim>\<open>translate\<close>, \<^verbatim>\<open>check_sat\<close>,
    \<^verbatim>\<open>push\<close>, \<^verbatim>\<open>pop\<close>, \<^verbatim>\<open>assert_expr\<close>, \<^verbatim>\<open>find_mutexes\<close>, the accessors, and the
    private functions these call together with \<^verbatim>\<open>internalize_value\<close>. Model extraction,
    the consequence driver, the weighted display and parameter handling are left out.
  \<^item> Reading a vector out of range (\<^verbatim>\<open>back()\<close> of an empty vector, \<^verbatim>\<open>v[i]\<close> past the
    end, \<^verbatim>\<open>u_map::find\<close> of a missing key), a failed \<^verbatim>\<open>VERIFY\<close>, \<^verbatim>\<open>UNREACHABLE\<close> and
    a thrown exception are values of the type \<open>error\<close>.
\<close>

subsection \<open>Terms, literals, goals\<close>

datatype lbool = l_false | l_undef | l_true

text \<open>
  Modelled from the spec: the term representation (\<^verbatim>\<open>ast.h\<close>, \<^verbatim>\<open>bv_decl_plugin.h\<close> are
  not under \<^verbatim>\<open>src/\<close>). Only the shapes the file builds or tests are constructors:
  uninterpreted constants with their sort, the applications made by \<^verbatim>\<open>mk_not\<close>,
  \<^verbatim>\<open>mk_implies\<close>, \<^verbatim>\<open>mk_eq\<close> and \<^verbatim>\<open>bv_util::mk_numeral\<close>, and any other application.
  Terms are hash-consed in the source, so pointer equality is structural equality.
\<close>

datatype expr_sort = Bool_sort | BV_sort nat | Other_sort string

datatype expr =
    Uninterp string expr_sort
  | Mk_not expr
  | Mk_implies expr expr
  | Mk_eq expr expr
  | Bv_numeral int nat
  | Mk_app string "expr list" expr_sort

text \<open>An \<^verbatim>\<open>expr*\<close>; \<open>None\<close> is the null pointer.\<close>

type_synonym expr_ptr = "expr option"

fun is_uninterp_const :: "expr \<Rightarrow> bool" where
  "is_uninterp_const (Uninterp _ _) = True"
| "is_uninterp_const _ = False"

fun get_sort :: "expr \<Rightarrow> expr_sort" where
  "get_sort (Uninterp _ s) = s"
| "get_sort (Mk_not _) = Bool_sort"
| "get_sort (Mk_implies _ _) = Bool_sort"
| "get_sort (Mk_eq _ _) = Bool_sort"
| "get_sort (Bv_numeral _ n) = BV_sort n"
| "get_sort (Mk_app _ _ s) = s"

definition is_bool :: "expr \<Rightarrow> bool" where
  "is_bool e = (get_sort e = Bool_sort)"

fun is_bv_sort :: "expr_sort \<Rightarrow> bool" where
  "is_bv_sort (BV_sort _) = True"
| "is_bv_sort _ = False"

text \<open>
  \<^verbatim>\<open>m.is_not(e, e)\<close>: whether \<open>e\<close> is a negation, and the term that \<open>e\<close> is then set
  to (its argument).
\<close>

fun is_not :: "expr \<Rightarrow> bool \<times> expr" where
  "is_not (Mk_not a) = (True, a)"
| "is_not e = (False, e)"

text \<open>
  Modelled from the spec: \<^verbatim>\<open>sat::literal\<close> (\<^verbatim>\<open>sat_types.h\<close> is not under \<^verbatim>\<open>src/\<close>), a
  boolean variable together with a polarity; \<open>lit_sign\<close> is true for a negated literal,
  and \<open>lit_index\<close> numbers the literals one-to-one.
\<close>

datatype literal = Literal (lit_var: nat) (lit_sign: bool)

definition lit_index :: "literal \<Rightarrow> nat" where
  "lit_index l = 2 * lit_var l + (if lit_sign l then 1 else 0)"

text \<open>
  A goal is the sequence of \<^verbatim>\<open>assert_expr(f)\<close> and \<^verbatim>\<open>assert_expr(f, d)\<close> calls made on
  it (\<open>d\<close> the dependency leaf \<^verbatim>\<open>m.mk_leaf(d)\<close>, \<open>None\<close> when there is none) and the two
  flags of its constructor.
\<close>

record goal =
  g_forms :: "(expr_ptr \<times> expr_ptr option) list"
  g_models_enabled :: bool
  g_core_enabled :: bool

text \<open>
  \<^verbatim>\<open>dep2asm_t\<close> is \<^verbatim>\<open>obj_map<expr, sat::literal>\<close>: an association list in the iteration
  order of the table.
\<close>

type_synonym dep2asm_t = "(expr_ptr \<times> literal) list"

datatype tactic_result = Tactic_exception string | Subgoals "goal list"

datatype error =
    Default_exception string
  | Verify_failed
  | Unreachable
  | Out_of_range

subsection \<open>The external collaborators\<close>

text \<open>
  One field for each member function of \<^verbatim>\<open>m_solver\<close>, \<^verbatim>\<open>m_map\<close>, \<^verbatim>\<open>m_goal2sat\<close> and
  \<^verbatim>\<open>m_preprocess\<close> that the file calls, acting on the opaque state \<open>'x\<close>.
  \<open>e_preprocess\<close> is the application of \<^verbatim>\<open>m_preprocess\<close> to
  \<^verbatim>\<open>(g, m_subgoals, m_mc, m_pc, m_dep_core)\<close>: it
  raises \<^verbatim>\<open>tactic_exception\<close> or fills \<^verbatim>\<open>m_subgoals\<close> (the converters it sets stay inside
  \<open>'x\<close>). \<open>e_goal2sat\<close> is the call of \<^verbatim>\<open>m_goal2sat\<close> followed by
  \<^verbatim>\<open>get_interpreted_atoms\<close>: it returns the dependency map it filled (the map is empty
  before every call in the file) and the interpreted atoms. \<open>e_to_bool_var\<close> returns
  \<open>None\<close> for \<^verbatim>\<open>sat::null_bool_var\<close>. \<open>e_show_atoms\<close> prints a vector of terms.
\<close>

record ('x, 'w) engine =
  e_user_push :: "'x \<Rightarrow> 'x"
  e_user_pop :: "nat \<Rightarrow> 'x \<Rightarrow> 'x"
  e_map_push :: "'x \<Rightarrow> 'x"
  e_map_pop :: "nat \<Rightarrow> 'x \<Rightarrow> 'x"
  e_pop_to_base_level :: "'x \<Rightarrow> 'x"
  e_preprocess :: "goal \<Rightarrow> 'x \<Rightarrow> tactic_result \<times> 'x"
  e_goal2sat :: "goal \<Rightarrow> 'x \<Rightarrow> (dep2asm_t \<times> expr_ptr list) \<times> 'x"
  e_show_atoms :: "expr_ptr list \<Rightarrow> string"
  e_check :: "literal list \<Rightarrow> 'w list \<Rightarrow> 'w \<Rightarrow> 'x \<Rightarrow> lbool \<times> 'x"
  e_get_core :: "'x \<Rightarrow> literal list"
  e_value_at :: "'x \<Rightarrow> literal \<Rightarrow> lbool"
  e_to_bool_var :: "'x \<Rightarrow> expr \<Rightarrow> nat option"
  e_find_mutexes :: "literal list \<Rightarrow> 'x \<Rightarrow> literal list list \<times> 'x"

subsection \<open>The solver state\<close>

text \<open>
  Modelled from the spec: the model (\<^verbatim>\<open>model.h\<close> is not under \<^verbatim>\<open>src/\<close>), a map from
  declarations to values.
\<close>

type_synonym model = "(string \<times> expr) list"

text \<open>
  The data members. \<open>m_bb_rewriter\<close> is the scope depth of the bit-blaster rewriter,
  \<open>None\<close> for the null \<^verbatim>\<open>scoped_ptr\<close>; \<open>m_preprocess\<close> says whether the tactic
  reference is non-null. The weights are only stored and moved, so their type is a
  parameter. The parameter set \<^verbatim>\<open>m_params\<close> and \<^verbatim>\<open>m_optimize_model\<close> only configure the
  collaborators and are left inside \<open>'x\<close>.
\<close>

record ('x, 'w) inc_sat_solver =
  m_ext :: 'x
  m_fmls :: "expr_ptr list"
  m_asmsf :: "expr_ptr list"
  m_fmls_lim :: "nat list"
  m_asms_lim :: "nat list"
  m_fmls_head_lim :: "nat list"
  m_fmls_head :: nat
  m_core :: "expr_ptr list"
  m_model :: "model option"
  m_bb_rewriter :: "nat option"
  m_preprocess :: bool
  m_num_scopes :: nat
  m_asms :: "literal list"
  m_subgoals :: "goal list"
  m_weights :: "'w list"
  m_unknown :: string
  m_exps :: "int list"

text \<open>
  \<^verbatim>\<open>init_preprocess\<close>: allocates the rewriter when it is null, rebuilds the pipeline, and
  pushes the rewriter up to the current scope depth.
\<close>

definition init_preprocess :: "('x, 'w) inc_sat_solver \<Rightarrow> ('x, 'w) inc_sat_solver" where
  "init_preprocess s =
     (let bb = (case m_bb_rewriter s of None \<Rightarrow> 0 | Some k \<Rightarrow> k)
      in s\<lparr>m_bb_rewriter := Some (if bb < m_num_scopes s then m_num_scopes s else bb),
            m_preprocess := True\<rparr>)"

text \<open>
  The constructor, on the state \<open>x0\<close> of freshly constructed collaborators.
\<close>

definition new_solver :: "'x \<Rightarrow> ('x, 'w) inc_sat_solver" where
  "new_solver x0 =
     init_preprocess
       \<lparr>m_ext = x0, m_fmls = [], m_asmsf = [], m_fmls_lim = [], m_asms_lim = [],
        m_fmls_head_lim = [], m_fmls_head = 0, m_core = [], m_model = None,
        m_bb_rewriter = None, m_preprocess = False, m_num_scopes = 0, m_asms = [],
        m_subgoals = [], m_weights = [], m_unknown = ''no reason given'', m_exps = []\<rparr>"

subsection \<open>Asserting formulas\<close>

definition assert_expr :: "expr_ptr \<Rightarrow> ('x, 'w) inc_sat_solver \<Rightarrow> ('x, 'w) inc_sat_solver" where
  "assert_expr t s = s\<lparr>m_fmls := m_fmls s @ [t]\<rparr>"

text \<open>
  \<^verbatim>\<open>assert_expr(t, a)\<close>: with a guard \<open>a\<close> the guard joins the standing assumptions and
  the implication is asserted.
\<close>

definition assert_expr_guarded ::
  "expr \<Rightarrow> expr_ptr \<Rightarrow> ('x, 'w) inc_sat_solver \<Rightarrow> ('x, 'w) inc_sat_solver" where
  "assert_expr_guarded t a s =
     (case a of
        Some g \<Rightarrow> assert_expr (Some (Mk_implies g t)) (s\<lparr>m_asmsf := m_asmsf s @ [Some g]\<rparr>)
      | None \<Rightarrow> assert_expr (Some t) s)"

definition get_num_assertions :: "('x, 'w) inc_sat_solver \<Rightarrow> nat" where
  "get_num_assertions s = length (m_fmls s)"

definition get_num_assumptions :: "('x, 'w) inc_sat_solver \<Rightarrow> nat" where
  "get_num_assumptions s = length (m_asmsf s)"

definition get_scope_level :: "('x, 'w) inc_sat_solver \<Rightarrow> nat" where
  "get_scope_level s = m_num_scopes s"

definition reason_unknown :: "('x, 'w) inc_sat_solver \<Rightarrow> string" where
  "reason_unknown s = m_unknown s"

definition set_reason_unknown :: "string \<Rightarrow> ('x, 'w) inc_sat_solver \<Rightarrow> ('x, 'w) inc_sat_solver" where
  "set_reason_unknown msg s = s\<lparr>m_unknown := msg\<rparr>"

subsection \<open>Internalization\<close>

text \<open>
  \<^verbatim>\<open>internalize_goal\<close>: the result code, the dependency map filled by \<^verbatim>\<open>goal2sat\<close> (empty
  when the translator was not reached) and the new state. A tactic exception drops the
  pipeline and the rewriter; only the interpreted-atoms branch stores a reason. The
  converter references \<^verbatim>\<open>m_mc\<close>, \<^verbatim>\<open>m_pc\<close> and \<^verbatim>\<open>m_dep_core\<close> that the function resets are
  outputs of the pipeline call and live inside \<open>'x\<close>.
\<close>

definition internalize_goal ::
  "('x, 'w) engine \<Rightarrow> goal \<Rightarrow> ('x, 'w) inc_sat_solver \<Rightarrow>
     lbool \<times> dep2asm_t \<times> ('x, 'w) inc_sat_solver" where
  "internalize_goal env g s =
     (let s0 = init_preprocess (s\<lparr>m_subgoals := []\<rparr>)
      in case e_preprocess env g (m_ext s0) of
           (Tactic_exception msg, x1) \<Rightarrow>
             (l_undef, [], s0\<lparr>m_ext := x1, m_preprocess := False, m_bb_rewriter := None\<rparr>)
         | (Subgoals gs, x1) \<Rightarrow>
             (let s1 = s0\<lparr>m_ext := x1, m_subgoals := gs\<rparr>
              in case gs of
                   [g1] \<Rightarrow>
                     (case e_goal2sat env g1 x1 of
                        ((dep2asm, atoms), x2) \<Rightarrow>
                          if atoms \<noteq> []
                          then (l_undef, dep2asm,
                                set_reason_unknown
                                  (''interpreted atoms sent to SAT solver '' @ e_show_atoms env atoms)
                                  (s1\<lparr>m_ext := x2\<rparr>))
                          else (l_true, dep2asm, s1\<lparr>m_ext := x2\<rparr>))
                 | _ \<Rightarrow> (l_undef, [], s1)))"

text \<open>
  \<^verbatim>\<open>internalize_formulas\<close>: nothing to do when the frontier covers every formula;
  otherwise the untranslated suffix goes through \<^verbatim>\<open>internalize_goal\<close> and the frontier
  advances unless the result is \<^verbatim>\<open>l_undef\<close>.
\<close>

definition internalize_formulas ::
  "('x, 'w) engine \<Rightarrow> ('x, 'w) inc_sat_solver \<Rightarrow> lbool \<times> ('x, 'w) inc_sat_solver" where
  "internalize_formulas env s =
     (if m_fmls_head s = length (m_fmls s) then (l_true, s)
      else
        (let g = \<lparr>g_forms = map (\<lambda>f. (f, None)) (drop (m_fmls_head s) (m_fmls s)),
                  g_models_enabled = True, g_core_enabled = False\<rparr>
         in case internalize_goal env g s of
              (res, dep2asm, s1) \<Rightarrow>
                if res \<noteq> l_undef then (res, s1\<lparr>m_fmls_head := length (m_fmls s1)\<rparr>)
                else (res, s1)))"

subsection \<open>The scope stack\<close>

text \<open>
  \<^verbatim>\<open>expr_ref_vector::resize\<close>: truncates, or pads with null pointers.
\<close>

definition resize :: "nat \<Rightarrow> expr_ptr list \<Rightarrow> expr_ptr list" where
  "resize n xs = take n xs @ replicate (n - length xs) None"

definition push :: "('x, 'w) engine \<Rightarrow> ('x, 'w) inc_sat_solver \<Rightarrow> ('x, 'w) inc_sat_solver" where
  "push env s =
     (let s1 = snd (internalize_formulas env s)
      in s1\<lparr>m_ext := e_map_push env (e_user_push env (m_ext s1)),
             m_num_scopes := m_num_scopes s1 + 1,
             m_fmls_lim := m_fmls_lim s1 @ [length (m_fmls s1)],
             m_asms_lim := m_asms_lim s1 @ [length (m_asmsf s1)],
             m_fmls_head_lim := m_fmls_head_lim s1 @ [m_fmls_head s1],
             m_bb_rewriter := map_option Suc (m_bb_rewriter s1)\<rparr>)"

text \<open>
  The \<^verbatim>\<open>while (n > 0)\<close> loop of \<^verbatim>\<open>pop\<close>. \<^verbatim>\<open>back()\<close> and \<^verbatim>\<open>pop_back()\<close> of an empty vector
  are undefined in the source and an error here.
\<close>

fun pop_loop :: "nat \<Rightarrow> ('x, 'w) inc_sat_solver \<Rightarrow> error + ('x, 'w) inc_sat_solver" where
  "pop_loop 0 s = Inr s"
| "pop_loop (Suc n) s =
     (if m_fmls_head_lim s = [] \<or> m_fmls_lim s = [] \<or> m_asms_lim s = [] then Inl Out_of_range
      else pop_loop n
             (s\<lparr>m_fmls_head := last (m_fmls_head_lim s),
                m_fmls := resize (last (m_fmls_lim s)) (m_fmls s),
                m_fmls_lim := butlast (m_fmls_lim s),
                m_fmls_head_lim := butlast (m_fmls_head_lim s),
                m_asmsf := resize (last (m_asms_lim s)) (m_asmsf s),
                m_asms_lim := butlast (m_asms_lim s)\<rparr>))"

text \<open>
  \<^verbatim>\<open>pop(n)\<close>: \<open>n\<close> is clamped to the scope depth, the rewriter, the variable map and the
  engine pop first, then the loop restores one checkpoint per level. (The depth of the
  rewriter is a \<open>nat\<close>, so its subtraction stops at zero; what the rewriter does when
  popped below its depth is outside the file.)
\<close>

definition pop ::
  "('x, 'w) engine \<Rightarrow> nat \<Rightarrow> ('x, 'w) inc_sat_solver \<Rightarrow> error + ('x, 'w) inc_sat_solver" where
  "pop env n s =
     (let k = (if n > m_num_scopes s then m_num_scopes s else n)
      in pop_loop k
           (s\<lparr>m_bb_rewriter := map_option (\<lambda>d. d - k) (m_bb_rewriter s),
              m_ext := e_user_pop env k (e_map_pop env k (m_ext s)),
              m_num_scopes := m_num_scopes s - k\<rparr>))"

subsection \<open>Assumptions and the dependency map\<close>

text \<open>
  The first loop of \<^verbatim>\<open>extract_assumptions\<close>, over the call-supplied terms: \<open>i\<close> is
  the index of the term, \<open>j\<close> counts the terms found in the map, and a weight moves from
  \<open>i\<close> to \<open>j\<close> when the two differ and the weights are in use. \<^verbatim>\<open>m_weights[i]\<close> past the
  end of the vector is undefined in the source and an error here.
\<close>

fun extract_loop ::
  "dep2asm_t \<Rightarrow> expr_ptr list \<Rightarrow> nat \<Rightarrow> nat \<Rightarrow> literal list \<Rightarrow> 'w list \<Rightarrow>
     error + (literal list \<times> 'w list)" where
  "extract_loop d [] i j ls ws = Inr (ls, ws)"
| "extract_loop d (a # as) i j ls ws =
     (case map_of d a of
        None \<Rightarrow> extract_loop d as (Suc i) j ls ws
      | Some lit \<Rightarrow>
          if i \<noteq> j \<and> ws \<noteq> [] then
            (if i < length ws \<and> j < length ws
             then extract_loop d as (Suc i) (Suc j) (ls @ [lit]) (ws[j := ws ! i])
             else Inl Out_of_range)
          else extract_loop d as (Suc i) (Suc j) (ls @ [lit]) ws)"

text \<open>
  \<^verbatim>\<open>extract_assumptions\<close>: the literals of the call-supplied terms, then those of the
  standing assumptions, each looked up in the dependency map and skipped when absent.
\<close>

definition extract_assumptions ::
  "expr_ptr list \<Rightarrow> dep2asm_t \<Rightarrow> ('x, 'w) inc_sat_solver \<Rightarrow> error + ('x, 'w) inc_sat_solver" where
  "extract_assumptions asms dep2asm s =
     (case extract_loop dep2asm asms 0 0 [] (m_weights s) of
        Inl e \<Rightarrow> Inl e
      | Inr (ls, ws) \<Rightarrow>
          Inr (s\<lparr>m_asms := ls @ List.map_filter (map_of dep2asm) (m_asmsf s),
                 m_weights := ws\<rparr>))"

definition internalize_assumptions ::
  "('x, 'w) engine \<Rightarrow> expr_ptr list \<Rightarrow> ('x, 'w) inc_sat_solver \<Rightarrow>
     error + (lbool \<times> dep2asm_t \<times> ('x, 'w) inc_sat_solver)" where
  "internalize_assumptions env asms s =
     (if length asms = 0 \<and> get_num_assumptions s = 0 then Inr (l_true, [], s\<lparr>m_asms := []\<rparr>)
      else
        (let g = \<lparr>g_forms = map (\<lambda>a. (a, Some a)) asms @ map (\<lambda>a. (a, Some a)) (m_asmsf s),
                  g_models_enabled = True, g_core_enabled = True\<rparr>
         in case internalize_goal env g s of
              (res, dep2asm, s1) \<Rightarrow>
                if res = l_true then
                  (case extract_assumptions asms dep2asm s1 of
                     Inl e \<Rightarrow> Inl e
                   | Inr s2 \<Rightarrow> Inr (res, dep2asm, s2))
                else Inr (res, dep2asm, s1)))"

text \<open>
  \<^verbatim>\<open>extract_asm2dep\<close>: the inverted map, keyed by literal index; a later entry of the
  iteration overwrites an earlier one with the same index.
\<close>

definition extract_asm2dep :: "dep2asm_t \<Rightarrow> (nat \<rightharpoonup> expr_ptr)" where
  "extract_asm2dep dep2asm = fold (\<lambda>(e, l) m. m(lit_index l \<mapsto> e)) dep2asm Map.empty"

text \<open>
  Modelled from the spec: the macro \<^verbatim>\<open>VERIFY\<close> (\<^verbatim>\<open>debug.h\<close> is not under \<^verbatim>\<open>src/\<close>): a
  failed lookup is a fatal internal-consistency violation.
\<close>

fun core_loop ::
  "(nat \<rightharpoonup> expr_ptr) \<Rightarrow> literal list \<Rightarrow> ('x, 'w) inc_sat_solver \<Rightarrow>
     error + ('x, 'w) inc_sat_solver" where
  "core_loop asm2dep [] s = Inr s"
| "core_loop asm2dep (c # cs) s =
     (case asm2dep (lit_index c) of
        None \<Rightarrow> Inl Verify_failed
      | Some e \<Rightarrow> core_loop asm2dep cs (s\<lparr>m_core := m_core s @ [e]\<rparr>))"

definition extract_core ::
  "('x, 'w) engine \<Rightarrow> dep2asm_t \<Rightarrow> ('x, 'w) inc_sat_solver \<Rightarrow> error + ('x, 'w) inc_sat_solver" where
  "extract_core env dep2asm s =
     (let asm2dep = extract_asm2dep dep2asm;
          core = e_get_core env (m_ext s)
      in core_loop asm2dep core (s\<lparr>m_core := []\<rparr>))"

definition check_assumptions ::
  "('x, 'w) engine \<Rightarrow> dep2asm_t \<Rightarrow> ('x, 'w) inc_sat_solver \<Rightarrow> error + unit" where
  "check_assumptions env dep2asm s =
     (if list_all (\<lambda>(k, lit). e_value_at env (m_ext s) lit = l_true) dep2asm then Inr ()
      else Inl (Default_exception ''bad state''))"

definition get_unsat_core :: "('x, 'w) inc_sat_solver \<Rightarrow> expr_ptr list" where
  "get_unsat_core s = m_core s"

subsection \<open>Checking\<close>

text \<open>
  \<^verbatim>\<open>check_sat(sz, assumptions, weights, max_weight)\<close>: the array \<open>assumptions\<close> with its
  length \<open>sz\<close> is a list; \<open>weights\<close> is \<open>None\<close> for the null pointer and otherwise an
  array of which the first \<open>sz\<close> entries are appended.
\<close>

definition check_sat ::
  "('x, 'w) engine \<Rightarrow> expr_ptr list \<Rightarrow> 'w list option \<Rightarrow> 'w \<Rightarrow> ('x, 'w) inc_sat_solver \<Rightarrow>
     error + (lbool \<times> ('x, 'w) inc_sat_solver)" where
  "check_sat env asms weights max_weight s =
     (let s1 = s\<lparr>m_weights := (case weights of None \<Rightarrow> [] | Some ws \<Rightarrow> take (length asms) ws),
                 m_ext := e_pop_to_base_level env (m_ext s),
                 m_model := None\<rparr>
      in case internalize_formulas env s1 of
           (r1, s2) \<Rightarrow>
             if r1 \<noteq> l_true then Inr (r1, s2)
             else
               (case internalize_assumptions env asms s2 of
                  Inl e \<Rightarrow> Inl e
                | Inr (r2, dep2asm, s3) \<Rightarrow>
                    if r2 \<noteq> l_true then Inr (r2, s3)
                    else
                      (case e_check env (m_asms s3) (m_weights s3) max_weight (m_ext s3) of
                         (r, x) \<Rightarrow>
                           (let s4 = s3\<lparr>m_ext := x\<rparr>
                            in case r of
                                 l_true \<Rightarrow>
                                   if length asms > 0 \<and> weights = None then
                                     (case check_assumptions env dep2asm s4 of
                                        Inl e \<Rightarrow> Inl e
                                      | Inr _ \<Rightarrow> Inr (r, s4))
                                   else Inr (r, s4)
                               | l_false \<Rightarrow>
                                   if m_asms s4 \<noteq> [] then
                                     (case extract_core env dep2asm s4 of
                                        Inl e \<Rightarrow> Inl e
                                      | Inr s5 \<Rightarrow> Inr (r, s5))
                                   else Inr (r, s4)
                               | l_undef \<Rightarrow> Inr (r, s4)))))"

subsection \<open>Mutexes\<close>

text \<open>
  The forward loop of \<^verbatim>\<open>find_mutexes\<close>: an atom without a boolean variable is dropped;
  otherwise its literal is collected and its index mapped to the atom as given.
\<close>

definition mutex_step ::
  "('x, 'w) engine \<Rightarrow> 'x \<Rightarrow> literal list \<times> (nat \<rightharpoonup> expr) \<Rightarrow> expr \<Rightarrow>
     literal list \<times> (nat \<rightharpoonup> expr)" where
  "mutex_step env x acc e0 =
     (case is_not e0 of
        (neg, e) \<Rightarrow>
          (case e_to_bool_var env x e of
             None \<Rightarrow> acc
           | Some v \<Rightarrow>
               (fst acc @ [Literal v neg], (snd acc)(lit_index (Literal v neg) \<mapsto> e0))))"

text \<open>
  The backward loops: \<^verbatim>\<open>lit2var.find(index)\<close> of a missing key is undefined in the
  source and an error here.
\<close>

fun mutex_back :: "(nat \<rightharpoonup> expr) \<Rightarrow> literal list \<Rightarrow> error + expr list" where
  "mutex_back lit2var [] = Inr []"
| "mutex_back lit2var (l # ls) =
     (case lit2var (lit_index l) of
        None \<Rightarrow> Inl Out_of_range
      | Some e \<Rightarrow> (case mutex_back lit2var ls of Inl err \<Rightarrow> Inl err | Inr es \<Rightarrow> Inr (e # es)))"

fun mutexes_back :: "(nat \<rightharpoonup> expr) \<Rightarrow> literal list list \<Rightarrow> error + expr list list" where
  "mutexes_back lit2var [] = Inr []"
| "mutexes_back lit2var (m # ms) =
     (case mutex_back lit2var m of
        Inl err \<Rightarrow> Inl err
      | Inr es \<Rightarrow> (case mutexes_back lit2var ms of Inl err \<Rightarrow> Inl err | Inr ess \<Rightarrow> Inr (es # ess)))"

text \<open>
  \<^verbatim>\<open>find_mutexes(vars, mutexes)\<close>: the groups are appended to the vector passed in, and
  the result code is the constant \<^verbatim>\<open>l_true\<close>.
\<close>

definition find_mutexes ::
  "('x, 'w) engine \<Rightarrow> expr list \<Rightarrow> expr list list \<Rightarrow> ('x, 'w) inc_sat_solver \<Rightarrow>
     error + (lbool \<times> expr list list \<times> ('x, 'w) inc_sat_solver)" where
  "find_mutexes env vars mutexes s =
     (case foldl (mutex_step env (m_ext s)) ([], Map.empty) vars of
        (ls, lit2var) \<Rightarrow>
          (case e_find_mutexes env ls (m_ext s) of
             (ls_mutexes, x) \<Rightarrow>
               (case mutexes_back lit2var ls_mutexes of
                  Inl err \<Rightarrow> Inl err
                | Inr ms \<Rightarrow> Inr (l_true, mutexes @ ms, s\<lparr>m_ext := x\<rparr>))))"

subsection \<open>Reassembling values\<close>

text \<open>
  The loop that extends the cache \<^verbatim>\<open>m_exps\<close> of powers of two; it runs on a non-empty
  vector (the statement before it pushes \<^verbatim>\<open>rational::one()\<close> onto an empty one).
\<close>

function grow_exps :: "nat \<Rightarrow> int list \<Rightarrow> int list" where
  "grow_exps n es = (if length es < n then grow_exps n (es @ [2 * last es]) else es)"
  by pat_completeness auto
termination
  by (relation "measure (\<lambda>(n, es). n - length es)") auto

text \<open>The summation loop: bit \<open>i\<close> adds \<^verbatim>\<open>m_exps[i]\<close> when its literal is not negated.\<close>

fun sum_bits :: "literal list \<Rightarrow> int list \<Rightarrow> nat \<Rightarrow> int \<Rightarrow> int" where
  "sum_bits [] es i r = r"
| "sum_bits (l # ls) es i r = sum_bits ls es (Suc i) (if \<not> lit_sign l then r + es ! i else r)"

definition internalize_value ::
  "literal list \<Rightarrow> expr \<Rightarrow> ('x, 'w) inc_sat_solver \<Rightarrow> error + (expr \<times> ('x, 'w) inc_sat_solver)" where
  "internalize_value val v s =
     (if is_uninterp_const v \<and> is_bool v then
        (case val of
           [] \<Rightarrow> Inl Out_of_range
         | l # _ \<Rightarrow> Inr (if lit_sign l then Mk_not v else v, s))
      else if is_uninterp_const v \<and> is_bv_sort (get_sort v) then
        (let es = grow_exps (length val) (if m_exps s = [] then [1] else m_exps s)
         in Inr (Mk_eq v (Bv_numeral (sum_bits val es 0 0) (length val)), s\<lparr>m_exps := es\<rparr>))
      else Inl Unreachable)"

subsection \<open>Cloning\<close>

text \<open>
  \<^verbatim>\<open>translate(dst_m, p)\<close>: \<open>tr\<close> is the \<^verbatim>\<open>ast_translation\<close> into the destination manager
  and \<open>x0\<close> the state of the collaborators constructed there.
\<close>

definition translate ::
  "(expr_ptr \<Rightarrow> expr_ptr) \<Rightarrow> 'x \<Rightarrow> ('x, 'w) inc_sat_solver \<Rightarrow> error + ('x, 'w) inc_sat_solver" where
  "translate tr x0 s =
     (if m_num_scopes s > 0
      then Inl (Default_exception ''Cannot translate sat solver at non-base level'')
      else
        (let r1 = foldl (\<lambda>r f. r\<lparr>m_fmls := m_fmls r @ [tr f]\<rparr>) (new_solver x0) (m_fmls s);
             r2 = foldl (\<lambda>r f. r\<lparr>m_asmsf := m_asmsf r @ [tr f]\<rparr>) r1 (m_asmsf s)
         in Inr r2))"

subsection \<open>Sequences of calls\<close>

text \<open>
  The calls a client makes between a \<^verbatim>\<open>push\<close> and the matching \<^verbatim>\<open>pop\<close>: asserting a
  formula, asserting a guarded formula, and pushing again.
\<close>

datatype scope_op = Op_assert expr_ptr | Op_assert_guarded expr expr_ptr | Op_push

fun apply_op :: "('x, 'w) engine \<Rightarrow> scope_op \<Rightarrow> ('x, 'w) inc_sat_solver \<Rightarrow> ('x, 'w) inc_sat_solver" where
  "apply_op env (Op_assert t) s = assert_expr t s"
| "apply_op env (Op_assert_guarded t a) s = assert_expr_guarded t a s"
| "apply_op env Op_push s = push env s"

fun run_ops :: "('x, 'w) engine \<Rightarrow> scope_op list \<Rightarrow> ('x, 'w) inc_sat_solver \<Rightarrow> ('x, 'w) inc_sat_solver" where
  "run_ops env [] s = s"
| "run_ops env (x # xs) s = run_ops env xs (apply_op env x s)"

definition pushes :: "scope_op list \<Rightarrow> nat" where
  "pushes ops = length (filter (\<lambda>x. x = Op_push) ops)"

text \<open>A sequence of \<^verbatim>\<open>push()\<close> and \<^verbatim>\<open>pop(n)\<close> calls; it stops at the first error.\<close>

datatype stack_op = Do_push | Do_pop nat

fun run_stack :: "('x, 'w) engine \<Rightarrow> stack_op list \<Rightarrow> ('x, 'w) inc_sat_solver \<Rightarrow> error + ('x, 'w) inc_sat_solver" where
  "run_stack env [] s = Inr s"
| "run_stack env (Do_push # ops) s = run_stack env ops (push env s)"
| "run_stack env (Do_pop n # ops) s =
     (case pop env n s of Inl e \<Rightarrow> Inl e | Inr s' \<Rightarrow> run_stack env ops s')"

subsection \<open>Invariants of the state and contracts of the collaborators\<close>

text \<open>
  The checkpoint count equals the scope depth. It holds after the constructor, and
  asserting, pushing, popping and checking keep it (lemmas \<open>scope_inv_new_solver\<close>,
  \<open>scope_inv_assert\<close>, \<open>scope_inv_assert_guarded\<close>, \<open>scope_inv_push\<close>,
  \<open>pop_total\<close>, \<open>scope_inv_check_sat\<close>).
\<close>

definition scope_inv :: "('x, 'w) inc_sat_solver \<Rightarrow> bool" where
  "scope_inv s \<longleftrightarrow>
     length (m_fmls_lim s) = m_num_scopes s \<and> length (m_asms_lim s) = m_num_scopes s \<and>
     length (m_fmls_head_lim s) = m_num_scopes s"

text \<open>
  The cache \<^verbatim>\<open>m_exps\<close> holds the powers of two in order. It is empty after the
  constructor and only \<^verbatim>\<open>internalize_value\<close> writes it.
\<close>

definition exps_inv :: "int list \<Rightarrow> bool" where
  "exps_inv es \<longleftrightarrow> es = map (\<lambda>i. 2 ^ i) [0..<length es]"

text \<open>
  What the file relies on from the engine. \<^verbatim>\<open>find_mutexes\<close> groups only literals it
  was given; after an unsatisfiable \<^verbatim>\<open>check\<close> the core holds only assumption literals of
  that call; the dependency map filled by \<^verbatim>\<open>goal2sat\<close> has only dependency leaves of the
  goal that entered the pipeline as keys.
\<close>

definition mutex_contract :: "('x, 'w) engine \<Rightarrow> bool" where
  "mutex_contract env \<longleftrightarrow>
     (\<forall>ls x. \<forall>m \<in> set (fst (e_find_mutexes env ls x)). set m \<subseteq> set ls)"

definition core_contract :: "('x, 'w) engine \<Rightarrow> bool" where
  "core_contract env \<longleftrightarrow>
     (\<forall>ls ws mw x x'. e_check env ls ws mw x = (l_false, x') \<longrightarrow> set (e_get_core env x') \<subseteq> set ls)"

definition deps_contract :: "('x, 'w) engine \<Rightarrow> bool" where
  "deps_contract env \<longleftrightarrow>
     (\<forall>g x g1 x1. e_preprocess env g x = (Subgoals [g1], x1) \<longrightarrow>
        fst ` set (fst (fst (e_goal2sat env g1 x1))) \<subseteq> {d. Some d \<in> snd ` set (g_forms g)})"

text \<open>
  The weights of the call-supplied terms that the dependency map retains, in order: what
  the compaction in \<^verbatim>\<open>extract_assumptions\<close> is to leave in the used prefix of
  \<^verbatim>\<open>m_weights\<close>.
\<close>

definition kept_weights :: "dep2asm_t \<Rightarrow> expr_ptr list \<Rightarrow> 'w list \<Rightarrow> 'w list" where
  "kept_weights d as ws = map snd (filter (\<lambda>(a, w). map_of d a \<noteq> None) (zip as ws))"

subsection \<open>A concrete instance\<close>

text \<open>
  Collaborators on which the definitions can be run. The state is the list of goals that
  entered the pipeline and the last core. The pipeline returns its goal unchanged, the
  translator gives the distinct dependency leaves the literals \<open>0, 1, \<dots>\<close>, and
  \<^verbatim>\<open>check\<close> answers unsatisfiable with the first assumption literal as the core whenever
  there is an assumption. The variants differ in one member each: a pipeline that
  raises \<^verbatim>\<open>tactic_exception\<close>, a pipeline that returns two subgoals, a translator that
  reports every formula as an interpreted atom.
\<close>

definition demo_deps :: "goal \<Rightarrow> dep2asm_t" where
  "demo_deps g =
     (let ds = remdups (List.map_filter snd (g_forms g))
      in zip ds (map (\<lambda>i. Literal i False) [0..<length ds]))"

definition demo_engine :: "(goal list \<times> literal list, nat) engine" where
  "demo_engine =
     \<lparr>e_user_push = id, e_user_pop = (\<lambda>n. id), e_map_push = id, e_map_pop = (\<lambda>n. id),
      e_pop_to_base_level = id,
      e_preprocess = (\<lambda>g x. (Subgoals [g], (fst x @ [g], snd x))),
      e_goal2sat = (\<lambda>g x. ((demo_deps g, []), x)),
      e_show_atoms = (\<lambda>as. ''...''),
      e_check = (\<lambda>ls ws mw x. (if ls = [] then l_true else l_false, (fst x, take 1 ls))),
      e_get_core = snd,
      e_value_at = (\<lambda>x l. l_true),
      e_to_bool_var = (\<lambda>x e. case e of Uninterp n _ \<Rightarrow> Some (length n) | _ \<Rightarrow> None),
      e_find_mutexes = (\<lambda>ls x. ([ls], x))\<rparr>"

definition failing_engine :: "(goal list \<times> literal list, nat) engine" where
  "failing_engine =
     demo_engine\<lparr>e_preprocess := (\<lambda>g x. (Tactic_exception ''max. memory exceeded'', (fst x @ [g], snd x)))\<rparr>"

definition splitting_engine :: "(goal list \<times> literal list, nat) engine" where
  "splitting_engine =
     demo_engine\<lparr>e_preprocess := (\<lambda>g x. (Subgoals [g, g], (fst x @ [g], snd x)))\<rparr>"

definition interp_engine :: "(goal list \<times> literal list, nat) engine" where
  "interp_engine =
     demo_engine\<lparr>e_goal2sat := (\<lambda>g x. ((demo_deps g, map fst (g_forms g)), x))\<rparr>"

definition p_atom :: expr where "p_atom = Uninterp ''p'' Bool_sort"
definition q_atom :: expr where "q_atom = Uninterp ''q'' Bool_sort"

text \<open>A fresh solver with one asserted, untranslated formula; and one with filled caches.\<close>

definition demo_solver :: "(goal list \<times> literal list, nat) inc_sat_solver" where
  "demo_solver = assert_expr (Some p_atom) (new_solver ([], []))"

definition cached_solver :: "(goal list \<times> literal list, nat) inc_sat_solver" where
  "cached_solver = demo_solver\<lparr>m_core := [Some q_atom], m_model := Some [(''p'', p_atom)]\<rparr>"

section \<open>Properties\<close>

lemmas demo_defs =
  demo_solver_def demo_engine_def failing_engine_def splitting_engine_def interp_engine_def
  cached_solver_def p_atom_def q_atom_def
  new_solver_def init_preprocess_def assert_expr_def assert_expr_guarded_def
  push_def pop_def internalize_formulas_def internalize_goal_def Let_def demo_deps_def
  List.map_filter_def resize_def set_reason_unknown_def reason_unknown_def

subsection \<open>What internalization leaves alone\<close>

lemma init_preprocess_frame [simp]:
  "m_ext (init_preprocess s) = m_ext s"
  "m_fmls (init_preprocess s) = m_fmls s"
  "m_asmsf (init_preprocess s) = m_asmsf s"
  "m_fmls_lim (init_preprocess s) = m_fmls_lim s"
  "m_asms_lim (init_preprocess s) = m_asms_lim s"
  "m_fmls_head_lim (init_preprocess s) = m_fmls_head_lim s"
  "m_fmls_head (init_preprocess s) = m_fmls_head s"
  "m_core (init_preprocess s) = m_core s"
  "m_model (init_preprocess s) = m_model s"
  "m_num_scopes (init_preprocess s) = m_num_scopes s"
  "m_asms (init_preprocess s) = m_asms s"
  "m_weights (init_preprocess s) = m_weights s"
  "m_unknown (init_preprocess s) = m_unknown s"
  "m_exps (init_preprocess s) = m_exps s"
  "m_subgoals (init_preprocess s) = m_subgoals s"
  by (simp_all add: init_preprocess_def Let_def)

lemma internalize_goal_frame:
  assumes "internalize_goal env g s = (r, d, s')"
  shows "m_fmls s' = m_fmls s \<and> m_asmsf s' = m_asmsf s \<and> m_fmls_lim s' = m_fmls_lim s \<and>
         m_asms_lim s' = m_asms_lim s \<and> m_fmls_head_lim s' = m_fmls_head_lim s \<and>
         m_fmls_head s' = m_fmls_head s \<and> m_core s' = m_core s \<and> m_model s' = m_model s \<and>
         m_num_scopes s' = m_num_scopes s \<and> m_asms s' = m_asms s \<and>
         m_weights s' = m_weights s \<and> m_exps s' = m_exps s"
  using assms
  by (auto simp: internalize_goal_def Let_def set_reason_unknown_def
           split: prod.splits tactic_result.splits list.splits if_splits)

lemma internalize_goal_result:
  "fst (internalize_goal env g s) = l_true \<or> fst (internalize_goal env g s) = l_undef"
  by (auto simp: internalize_goal_def Let_def split: prod.splits tactic_result.splits list.splits)

lemma internalize_goal_result':
  "internalize_goal env g s = (r, d, s') \<Longrightarrow> r = l_true \<or> r = l_undef"
  using internalize_goal_result [of env g s] by simp

lemma internalize_formulas_frame:
  assumes "internalize_formulas env s = (r, s')"
  shows "m_fmls s' = m_fmls s \<and> m_asmsf s' = m_asmsf s \<and> m_fmls_lim s' = m_fmls_lim s \<and>
         m_asms_lim s' = m_asms_lim s \<and> m_fmls_head_lim s' = m_fmls_head_lim s \<and>
         m_core s' = m_core s \<and> m_model s' = m_model s \<and>
         m_num_scopes s' = m_num_scopes s \<and> m_asms s' = m_asms s \<and>
         m_weights s' = m_weights s \<and> m_exps s' = m_exps s"
proof (cases "m_fmls_head s = length (m_fmls s)")
  case True
  with assms show ?thesis by (simp add: internalize_formulas_def)
next
  case False
  obtain res d s1 where g: "internalize_goal env
      \<lparr>g_forms = map (\<lambda>f. (f, None)) (drop (m_fmls_head s) (m_fmls s)),
       g_models_enabled = True, g_core_enabled = False\<rparr> s = (res, d, s1)"
    by (metis prod_cases3)
  from internalize_goal_frame [OF g] assms False g show ?thesis
    by (auto simp: internalize_formulas_def Let_def split: if_splits)
qed

lemma internalize_formulas_frame':
  "m_fmls (snd (internalize_formulas env s)) = m_fmls s"
  "m_asmsf (snd (internalize_formulas env s)) = m_asmsf s"
  "m_fmls_lim (snd (internalize_formulas env s)) = m_fmls_lim s"
  "m_asms_lim (snd (internalize_formulas env s)) = m_asms_lim s"
  "m_fmls_head_lim (snd (internalize_formulas env s)) = m_fmls_head_lim s"
  "m_core (snd (internalize_formulas env s)) = m_core s"
  "m_model (snd (internalize_formulas env s)) = m_model s"
  "m_num_scopes (snd (internalize_formulas env s)) = m_num_scopes s"
  using internalize_formulas_frame [of env s "fst (internalize_formulas env s)" "snd (internalize_formulas env s)"]
  by simp_all

lemma internalize_formulas_result:
  "fst (internalize_formulas env s) = l_true \<or> fst (internalize_formulas env s) = l_undef"
  by (auto simp: internalize_formulas_def Let_def split: prod.splits
           dest: internalize_goal_result')

lemma internalize_formulas_head:
  "m_fmls_head (snd (internalize_formulas env s)) =
     (if fst (internalize_formulas env s) = l_undef then m_fmls_head s else length (m_fmls s))"
proof (cases "m_fmls_head s = length (m_fmls s)")
  case True
  then show ?thesis by (simp add: internalize_formulas_def)
next
  case False
  obtain res d s1 where g: "internalize_goal env
      \<lparr>g_forms = map (\<lambda>f. (f, None)) (drop (m_fmls_head s) (m_fmls s)),
       g_models_enabled = True, g_core_enabled = False\<rparr> s = (res, d, s1)"
    by (metis prod_cases3)
  from internalize_goal_frame [OF g] False g show ?thesis
    by (simp add: internalize_formulas_def Let_def)
qed

subsection \<open>The scope stack\<close>

lemma length_resize [simp]: "length (resize n xs) = n"
  by (simp add: resize_def)

lemma push_lims:
  "m_fmls_lim (push env s) = m_fmls_lim s @ [length (m_fmls s)]"
  "m_asms_lim (push env s) = m_asms_lim s @ [length (m_asmsf s)]"
  "m_fmls_head_lim (push env s) = m_fmls_head_lim s @ [m_fmls_head (snd (internalize_formulas env s))]"
  "m_num_scopes (push env s) = Suc (m_num_scopes s)"
  "m_core (push env s) = m_core s"
  "m_model (push env s) = m_model s"
  by (simp_all add: push_def Let_def internalize_formulas_frame')

lemma apply_op_lims:
  "\<exists>A B C. m_fmls_lim (apply_op env x s) = m_fmls_lim s @ A \<and>
           m_asms_lim (apply_op env x s) = m_asms_lim s @ B \<and>
           m_fmls_head_lim (apply_op env x s) = m_fmls_head_lim s @ C \<and>
           length A = pushes [x] \<and> length B = pushes [x] \<and> length C = pushes [x] \<and>
           m_num_scopes (apply_op env x s) = m_num_scopes s + pushes [x]"
  by (cases x)
     (auto simp: pushes_def push_lims assert_expr_def assert_expr_guarded_def split: option.splits)

lemma pushes_Cons: "pushes (x # xs) = pushes [x] + pushes xs"
  by (simp add: pushes_def)

lemma run_ops_lims:
  "\<exists>A B C. m_fmls_lim (run_ops env ops s) = m_fmls_lim s @ A \<and>
           m_asms_lim (run_ops env ops s) = m_asms_lim s @ B \<and>
           m_fmls_head_lim (run_ops env ops s) = m_fmls_head_lim s @ C \<and>
           length A = pushes ops \<and> length B = pushes ops \<and> length C = pushes ops \<and>
           m_num_scopes (run_ops env ops s) = m_num_scopes s + pushes ops"
proof (induction ops arbitrary: s)
  case Nil
  show ?case by (simp add: pushes_def)
next
  case (Cons x xs)
  obtain A B C where 1:
    "m_fmls_lim (apply_op env x s) = m_fmls_lim s @ A"
    "m_asms_lim (apply_op env x s) = m_asms_lim s @ B"
    "m_fmls_head_lim (apply_op env x s) = m_fmls_head_lim s @ C"
    "length A = pushes [x]" "length B = pushes [x]" "length C = pushes [x]"
    "m_num_scopes (apply_op env x s) = m_num_scopes s + pushes [x]"
    using apply_op_lims [of env x s] by blast
  obtain A' B' C' where 2:
    "m_fmls_lim (run_ops env xs (apply_op env x s)) = m_fmls_lim (apply_op env x s) @ A'"
    "m_asms_lim (run_ops env xs (apply_op env x s)) = m_asms_lim (apply_op env x s) @ B'"
    "m_fmls_head_lim (run_ops env xs (apply_op env x s)) = m_fmls_head_lim (apply_op env x s) @ C'"
    "length A' = pushes xs" "length B' = pushes xs" "length C' = pushes xs"
    "m_num_scopes (run_ops env xs (apply_op env x s)) = m_num_scopes (apply_op env x s) + pushes xs"
    using Cons.IH [of "apply_op env x s"] by blast
  show ?case
    apply (rule exI [of _ "A @ A'"], rule exI [of _ "B @ B'"], rule exI [of _ "C @ C'"])
    using 1 2 by (simp add: pushes_Cons [of x xs])
qed

text \<open>The loop of \<^verbatim>\<open>pop\<close> on stacks that hold at least the levels popped.\<close>

lemma pop_loop_restore:
  "length A = n \<Longrightarrow> length B = n \<Longrightarrow> length C = n \<Longrightarrow>
   m_fmls_lim t = F @ a # A \<Longrightarrow> m_asms_lim t = G @ b # B \<Longrightarrow> m_fmls_head_lim t = H @ c # C \<Longrightarrow>
   \<exists>t'. pop_loop (Suc n) t = Inr t' \<and> length (m_fmls t') = a \<and> length (m_asmsf t') = b \<and>
        m_fmls_head t' = c \<and> m_fmls_lim t' = F \<and> m_asms_lim t' = G \<and> m_fmls_head_lim t' = H \<and>
        m_num_scopes t' = m_num_scopes t"
proof (induction n arbitrary: t A B C)
  case 0
  then show ?case by simp
next
  case (Suc n)
  from Suc.prems obtain A' x where A: "A = A' @ [x]" "length A' = n"
    by (metis length_Suc_conv_rev)
  from Suc.prems obtain B' y where B: "B = B' @ [y]" "length B' = n"
    by (metis length_Suc_conv_rev)
  from Suc.prems obtain C' z where C: "C = C' @ [z]" "length C' = n"
    by (metis length_Suc_conv_rev)
  let ?t = "t\<lparr>m_fmls_head := last (m_fmls_head_lim t),
              m_fmls := resize (last (m_fmls_lim t)) (m_fmls t),
              m_fmls_lim := butlast (m_fmls_lim t),
              m_fmls_head_lim := butlast (m_fmls_head_lim t),
              m_asmsf := resize (last (m_asms_lim t)) (m_asmsf t),
              m_asms_lim := butlast (m_asms_lim t)\<rparr>"
  have step: "pop_loop (Suc (Suc n)) t = pop_loop (Suc n) ?t"
    using Suc.prems by simp
  have "m_fmls_lim ?t = F @ a # A'" "m_asms_lim ?t = G @ b # B'" "m_fmls_head_lim ?t = H @ c # C'"
    using Suc.prems A B C by (simp_all add: butlast_append)
  from Suc.IH [OF A(2) B(2) C(2) this] step show ?case by simp
qed

lemma pop_loop_total:
  "k \<le> length (m_fmls_lim t) \<Longrightarrow> k \<le> length (m_asms_lim t) \<Longrightarrow> k \<le> length (m_fmls_head_lim t) \<Longrightarrow>
   \<exists>t'. pop_loop k t = Inr t' \<and> m_core t' = m_core t \<and> m_model t' = m_model t \<and>
        m_num_scopes t' = m_num_scopes t \<and>
        length (m_fmls_lim t') = length (m_fmls_lim t) - k \<and>
        length (m_asms_lim t') = length (m_asms_lim t) - k \<and>
        length (m_fmls_head_lim t') = length (m_fmls_head_lim t) - k"
proof (induction k arbitrary: t)
  case 0
  then show ?case by simp
next
  case (Suc k)
  let ?t = "t\<lparr>m_fmls_head := last (m_fmls_head_lim t),
              m_fmls := resize (last (m_fmls_lim t)) (m_fmls t),
              m_fmls_lim := butlast (m_fmls_lim t),
              m_fmls_head_lim := butlast (m_fmls_head_lim t),
              m_asmsf := resize (last (m_asms_lim t)) (m_asmsf t),
              m_asms_lim := butlast (m_asms_lim t)\<rparr>"
  from Suc.prems have ne: "m_fmls_lim t \<noteq> []" "m_asms_lim t \<noteq> []" "m_fmls_head_lim t \<noteq> []"
    by auto
  then have step: "pop_loop (Suc k) t = pop_loop k ?t" by simp
  have "k \<le> length (m_fmls_lim ?t)" "k \<le> length (m_asms_lim ?t)" "k \<le> length (m_fmls_head_lim ?t)"
    using Suc.prems by simp_all
  from Suc.IH [OF this] step show ?case by simp
qed

lemma scope_inv_new_solver: "scope_inv (new_solver x0)"
  by (simp add: scope_inv_def new_solver_def)

lemma scope_inv_assert: "scope_inv s \<Longrightarrow> scope_inv (assert_expr t s)"
  by (simp add: scope_inv_def assert_expr_def)

lemma scope_inv_assert_guarded: "scope_inv s \<Longrightarrow> scope_inv (assert_expr_guarded t a s)"
  by (simp add: scope_inv_def assert_expr_def assert_expr_guarded_def split: option.splits)

lemma scope_inv_push: "scope_inv s \<Longrightarrow> scope_inv (push env s)"
  by (simp add: scope_inv_def push_lims)

lemma pop_total:
  assumes "scope_inv s"
  shows "\<exists>s'. pop env n s = Inr s' \<and> scope_inv s' \<and> m_core s' = m_core s \<and> m_model s' = m_model s"
proof -
  let ?k = "if n > m_num_scopes s then m_num_scopes s else n"
  let ?t = "s\<lparr>m_bb_rewriter := map_option (\<lambda>d. d - ?k) (m_bb_rewriter s),
              m_ext := e_user_pop env ?k (e_map_pop env ?k (m_ext s)),
              m_num_scopes := m_num_scopes s - ?k\<rparr>"
  have k: "?k \<le> m_num_scopes s" by simp
  have "?k \<le> length (m_fmls_lim ?t)" "?k \<le> length (m_asms_lim ?t)" "?k \<le> length (m_fmls_head_lim ?t)"
    using assms by (simp_all add: scope_inv_def)
  from pop_loop_total [OF this] obtain t' where t':
    "pop_loop ?k ?t = Inr t'" "m_core t' = m_core ?t" "m_model t' = m_model ?t"
    "m_num_scopes t' = m_num_scopes ?t"
    "length (m_fmls_lim t') = length (m_fmls_lim ?t) - ?k"
    "length (m_asms_lim t') = length (m_asms_lim ?t) - ?k"
    "length (m_fmls_head_lim t') = length (m_fmls_head_lim ?t) - ?k"
    by blast
  have "pop env n s = Inr t'" using t'(1) by (simp add: pop_def Let_def)
  moreover have "scope_inv t'" using t' assms by (simp add: scope_inv_def)
  ultimately show ?thesis using t' by simp
qed

lemma core_loop_frame:
  "core_loop a2d cs s = Inr s' \<Longrightarrow>
     m_fmls_lim s' = m_fmls_lim s \<and> m_asms_lim s' = m_asms_lim s \<and>
     m_fmls_head_lim s' = m_fmls_head_lim s \<and> m_num_scopes s' = m_num_scopes s"
proof (induction cs arbitrary: s)
  case Nil
  then show ?case by simp
next
  case (Cons c cs)
  then obtain e where "a2d (lit_index c) = Some e"
    and "core_loop a2d cs (s\<lparr>m_core := m_core s @ [e]\<rparr>) = Inr s'"
    by (auto split: option.splits)
  from Cons.IH [OF this(2)] show ?case by simp
qed

lemma internalize_assumptions_frame:
  assumes "internalize_assumptions env asms s = Inr (r, d, s')"
  shows "m_fmls_lim s' = m_fmls_lim s \<and> m_asms_lim s' = m_asms_lim s \<and>
         m_fmls_head_lim s' = m_fmls_head_lim s \<and> m_num_scopes s' = m_num_scopes s"
proof (cases "length asms = 0 \<and> get_num_assumptions s = 0")
  case True
  with assms show ?thesis by (auto simp: internalize_assumptions_def)
next
  case False
  let ?g = "\<lparr>g_forms = map (\<lambda>a. (a, Some a)) asms @ map (\<lambda>a. (a, Some a)) (m_asmsf s),
             g_models_enabled = True, g_core_enabled = True\<rparr>"
  obtain res dd s1 where g: "internalize_goal env ?g s = (res, dd, s1)"
    by (metis prod_cases3)
  from assms False g have "s' = s1 \<or> (\<exists>ls ws. s' = s1\<lparr>m_asms := ls, m_weights := ws\<rparr>)"
    by (auto simp: internalize_assumptions_def extract_assumptions_def Let_def
             split: if_splits sum.splits)
  with internalize_goal_frame [OF g] show ?thesis by auto
qed

lemma scope_inv_check_sat:
  assumes "scope_inv s" and "check_sat env asms weights mw s = Inr (r, s')"
  shows "scope_inv s'"
proof -
  let ?s1 = "s\<lparr>m_weights := (case weights of None \<Rightarrow> [] | Some ws \<Rightarrow> take (length asms) ws),
               m_ext := e_pop_to_base_level env (m_ext s), m_model := None\<rparr>"
  obtain r1 s2 where f: "internalize_formulas env ?s1 = (r1, s2)"
    by (cases "internalize_formulas env ?s1")
  from internalize_formulas_frame [OF f] assms(1) have s2: "scope_inv s2"
    by (simp add: scope_inv_def)
  show ?thesis
  proof (cases "r1 = l_true")
    case False
    with assms(2) f s2 show ?thesis by (simp add: check_sat_def Let_def)
  next
    case True
    from assms(2) f True obtain r2 d s3 where
      ia: "internalize_assumptions env asms s2 = Inr (r2, d, s3)"
      by (auto simp: check_sat_def Let_def split: sum.splits)
    from internalize_assumptions_frame [OF ia] s2 have s3: "scope_inv s3"
      by (simp add: scope_inv_def)
    obtain rc x where ck: "e_check env (m_asms s3) (m_weights s3) mw (m_ext s3) = (rc, x)"
      by (cases "e_check env (m_asms s3) (m_weights s3) mw (m_ext s3)")
    from assms(2) f True ia ck
    have "s' = s3 \<or> s' = s3\<lparr>m_ext := x\<rparr> \<or> extract_core env d (s3\<lparr>m_ext := x\<rparr>) = Inr s'"
      by (auto simp: check_sat_def Let_def split: if_splits sum.splits lbool.splits)
    then show ?thesis
    proof (elim disjE)
      assume "extract_core env d (s3\<lparr>m_ext := x\<rparr>) = Inr s'"
      then have "core_loop (extract_asm2dep d) (e_get_core env x) (s3\<lparr>m_ext := x, m_core := []\<rparr>) = Inr s'"
        by (simp add: extract_core_def Let_def)
      from core_loop_frame [OF this] s3 show ?thesis by (simp add: scope_inv_def)
    qed (use s3 in \<open>simp_all add: scope_inv_def\<close>)
  qed
qed

text \<open>
  C1 (as amended). After a \<^verbatim>\<open>push()\<close> followed by any sequence of asserts and further
  pushes, \<^verbatim>\<open>pop(k)\<close> with \<open>k\<close> the number of pushes made returns normally and restores
  the formula count, the assumption count and the scope depth to their values before the
  first push. The frontier index is restored to the value the first push recorded, which
  is the frontier after that push's own \<^verbatim>\<open>internalize_formulas()\<close> step: by
  \<open>internalize_formulas_head\<close> that is the formula count, unless internalization
  reported unknown, in which case it is the pre-push frontier.
\<close>

theorem push_pop_restores:
  "\<exists>s'. pop env (Suc (pushes ops)) (run_ops env ops (push env s)) = Inr s' \<and>
        length (m_fmls s') = length (m_fmls s) \<and>
        length (m_asmsf s') = length (m_asmsf s) \<and>
        m_fmls_head s' = m_fmls_head (snd (internalize_formulas env s)) \<and>
        m_num_scopes s' = m_num_scopes s"
proof -
  let ?p = "push env s"
  let ?r = "run_ops env ops ?p"
  obtain A B C where r:
    "m_fmls_lim ?r = m_fmls_lim ?p @ A" "m_asms_lim ?r = m_asms_lim ?p @ B"
    "m_fmls_head_lim ?r = m_fmls_head_lim ?p @ C"
    "length A = pushes ops" "length B = pushes ops" "length C = pushes ops"
    "m_num_scopes ?r = m_num_scopes ?p + pushes ops"
    using run_ops_lims [of env ops ?p] by blast
  let ?k = "Suc (pushes ops)"
  let ?t = "?r\<lparr>m_bb_rewriter := map_option (\<lambda>d. d - ?k) (m_bb_rewriter ?r),
               m_ext := e_user_pop env ?k (e_map_pop env ?k (m_ext ?r)),
               m_num_scopes := m_num_scopes ?r - ?k\<rparr>"
  have depth: "m_num_scopes ?r = m_num_scopes s + ?k"
    using r(7) by (simp add: push_lims)
  have unfold: "pop env ?k ?r = pop_loop ?k ?t"
    using depth by (simp add: pop_def Let_def)
  have lims:
    "m_fmls_lim ?t = m_fmls_lim s @ length (m_fmls s) # A"
    "m_asms_lim ?t = m_asms_lim s @ length (m_asmsf s) # B"
    "m_fmls_head_lim ?t = m_fmls_head_lim s @ m_fmls_head (snd (internalize_formulas env s)) # C"
    using r by (simp_all add: push_lims)
  from pop_loop_restore [OF r(4) r(5) r(6) lims] obtain t' where
    "pop_loop ?k ?t = Inr t'" "length (m_fmls t') = length (m_fmls s)"
    "length (m_asmsf t') = length (m_asmsf s)"
    "m_fmls_head t' = m_fmls_head (snd (internalize_formulas env s))"
    "m_num_scopes t' = m_num_scopes ?t"
    by blast
  then show ?thesis using unfold depth by simp
qed

theorem push_pop_restores_witness:
  "\<exists>s'. pop demo_engine (Suc (pushes [Op_assert (Some q_atom), Op_push]))
           (run_ops demo_engine [Op_assert (Some q_atom), Op_push] (push demo_engine demo_solver)) = Inr s' \<and>
        length (m_fmls s') = length (m_fmls demo_solver) \<and>
        length (m_asmsf s') = length (m_asmsf demo_solver) \<and>
        m_fmls_head s' = m_fmls_head (snd (internalize_formulas demo_engine demo_solver)) \<and>
        m_num_scopes s' = m_num_scopes demo_solver"
  using push_pop_restores [of demo_engine "[Op_assert (Some q_atom), Op_push]" demo_solver] .

text \<open>
  The claim as stated fails for the frontier: with one pending formula the frontier is 0
  before \<^verbatim>\<open>push()\<close> and 1 after \<^verbatim>\<open>push(); pop(1)\<close>, because \<^verbatim>\<open>push\<close> translates the
  pending formula before it takes the checkpoint.
\<close>

theorem push_pop_frontier_counterexample:
  "m_fmls_head demo_solver = 0 \<and>
   map_sum id m_fmls_head (pop demo_engine 1 (push demo_engine demo_solver)) = Inr 1"
  by (simp add: demo_defs)

text \<open>
  C2. In a state with scope depth \<open>d\<close> (and as many checkpoints), \<^verbatim>\<open>pop(n)\<close> with
  \<open>n > d\<close> is not an error and gives exactly the result of \<^verbatim>\<open>pop(d)\<close>.
\<close>

theorem pop_clamps:
  assumes "scope_inv s" and "m_num_scopes s < n"
  shows "pop env n s = pop env (m_num_scopes s) s \<and> (\<exists>s'. pop env n s = Inr s')"
  using assms pop_total [OF assms(1), of env n] by (auto simp: pop_def)

theorem pop_clamps_witness:
  "scope_inv (push demo_engine demo_solver) \<and> m_num_scopes (push demo_engine demo_solver) < 5 \<and>
   pop demo_engine 5 (push demo_engine demo_solver) =
     pop demo_engine (m_num_scopes (push demo_engine demo_solver)) (push demo_engine demo_solver) \<and>
   (\<exists>s'. pop demo_engine 5 (push demo_engine demo_solver) = Inr s')"
proof -
  have 1: "scope_inv (push demo_engine demo_solver)"
    by (simp add: scope_inv_def demo_defs)
  have 2: "m_num_scopes (push demo_engine demo_solver) < 5"
    by (simp add: demo_defs)
  from pop_clamps [OF 1 2, of demo_engine] 1 2 show ?thesis by blast
qed

text \<open>
  C7. No sequence of \<^verbatim>\<open>push()\<close> and \<^verbatim>\<open>pop(n)\<close> calls changes the cached model
  \<^verbatim>\<open>m_model\<close> or the cached unsat core \<^verbatim>\<open>m_core\<close>; every such sequence runs to its end.
\<close>

theorem push_pop_keep_caches:
  "scope_inv s \<Longrightarrow>
     \<exists>s'. run_stack env ops s = Inr s' \<and> m_model s' = m_model s \<and> m_core s' = m_core s \<and> scope_inv s'"
proof (induction ops arbitrary: s)
  case Nil
  then show ?case by simp
next
  case (Cons x xs)
  show ?case
  proof (cases x)
    case Do_push
    from Cons.IH [OF scope_inv_push [OF Cons.prems, of env]] Do_push show ?thesis
      by (simp add: push_lims)
  next
    case (Do_pop n)
    from pop_total [OF Cons.prems, of env n] obtain s1 where
      s1: "pop env n s = Inr s1" "scope_inv s1" "m_core s1 = m_core s" "m_model s1 = m_model s"
      by blast
    from Cons.IH [OF s1(2)] s1 Do_pop show ?thesis by simp
  qed
qed

theorem push_pop_keep_caches_witness:
  "scope_inv cached_solver \<and>
   (\<exists>s'. run_stack demo_engine [Do_push, Do_push, Do_pop 5, Do_push] cached_solver = Inr s' \<and>
         m_model s' = Some [(''p'', p_atom)] \<and> m_core s' = [Some q_atom] \<and> scope_inv s')"
proof -
  have 1: "scope_inv cached_solver" by (simp add: scope_inv_def demo_defs)
  have "m_model cached_solver = Some [(''p'', p_atom)]" "m_core cached_solver = [Some q_atom]"
    by (simp_all add: cached_solver_def)
  with push_pop_keep_caches [OF 1, of demo_engine "[Do_push, Do_push, Do_pop 5, Do_push]"] 1
  show ?thesis by simp
qed

subsection \<open>The frontier\<close>

text \<open>
  C3 (as amended). If \<^verbatim>\<open>internalize_formulas()\<close> returns \<^verbatim>\<open>l_true\<close>, calling it again with
  no assert in between returns \<^verbatim>\<open>l_true\<close> and leaves the whole state, the frontier and the
  collaborators included, as it is: nothing is translated again. Whenever the frontier
  equals the formula count, \<^verbatim>\<open>internalize_formulas()\<close> returns \<^verbatim>\<open>l_true\<close> without building
  a goal.
\<close>

theorem internalize_formulas_again:
  "(fst (internalize_formulas env s) = l_true \<longrightarrow>
      internalize_formulas env (snd (internalize_formulas env s)) =
        (l_true, snd (internalize_formulas env s))) \<and>
   (m_fmls_head s = length (m_fmls s) \<longrightarrow> internalize_formulas env s = (l_true, s))"
proof (intro conjI impI)
  assume ok: "fst (internalize_formulas env s) = l_true"
  let ?s1 = "snd (internalize_formulas env s)"
  have "m_fmls_head ?s1 = length (m_fmls ?s1)"
  proof (cases "m_fmls_head s = length (m_fmls s)")
    case True
    then show ?thesis by (simp add: internalize_formulas_def)
  next
    case False
    with ok show ?thesis
      by (auto simp: internalize_formulas_def Let_def split: prod.splits if_splits)
  qed
  then show "internalize_formulas env ?s1 = (l_true, ?s1)"
    by (simp add: internalize_formulas_def)
next
  assume "m_fmls_head s = length (m_fmls s)"
  then show "internalize_formulas env s = (l_true, s)"
    by (simp add: internalize_formulas_def)
qed

theorem internalize_formulas_again_witness:
  "fst (internalize_formulas demo_engine demo_solver) = l_true \<and>
   internalize_formulas demo_engine (snd (internalize_formulas demo_engine demo_solver)) =
     (l_true, snd (internalize_formulas demo_engine demo_solver)) \<and>
   m_fmls_head (new_solver ([], []) :: (goal list \<times> literal list, nat) inc_sat_solver) =
     length (m_fmls (new_solver ([], []) :: (goal list \<times> literal list, nat) inc_sat_solver)) \<and>
   internalize_formulas demo_engine (new_solver ([], [])) = (l_true, new_solver ([], []))"
proof -
  have 1: "fst (internalize_formulas demo_engine demo_solver) = l_true"
    by (simp add: demo_defs)
  have 2: "m_fmls_head (new_solver ([], []) :: (goal list \<times> literal list, nat) inc_sat_solver) =
     length (m_fmls (new_solver ([], []) :: (goal list \<times> literal list, nat) inc_sat_solver))"
    by (simp add: demo_defs)
  from internalize_formulas_again [where env = demo_engine and s = demo_solver]
       internalize_formulas_again [where env = demo_engine and s = "new_solver ([], [])"] 1 2
  show ?thesis by blast
qed

text \<open>
  The claim as stated, for every state, fails when the first call reports unknown: the
  frontier stays behind, and the second call sends the same suffix through the pipeline
  again (two goals have entered it) and reports unknown, not success.
\<close>

theorem internalize_formulas_retry_counterexample:
  "fst (internalize_formulas failing_engine demo_solver) = l_undef \<and>
   fst (internalize_formulas failing_engine (snd (internalize_formulas failing_engine demo_solver))) = l_undef \<and>
   length (fst (m_ext (snd (internalize_formulas failing_engine demo_solver)))) = 1 \<and>
   length (fst (m_ext (snd (internalize_formulas failing_engine
                              (snd (internalize_formulas failing_engine demo_solver)))))) = 2"
  by (simp add: demo_defs)

subsection \<open>Reasons for unknown\<close>

text \<open>
  Of the three ways \<^verbatim>\<open>internalize_goal\<close> reports unknown, only the interpreted-atoms
  branch stores a reason. After a tactic exception or a subgoal count other than one,
  \<^verbatim>\<open>reason_unknown()\<close> returns what it returned before the call.
\<close>

lemma pipeline_failure_keeps_reason:
  assumes "e_preprocess env g (m_ext s) = (Tactic_exception msg, x1) \<or>
           (e_preprocess env g (m_ext s) = (Subgoals gs, x1) \<and> length gs \<noteq> 1)"
  shows "fst (internalize_goal env g s) = l_undef \<and>
         reason_unknown (snd (snd (internalize_goal env g s))) = reason_unknown s"
  using assms
  by (auto simp: internalize_goal_def Let_def reason_unknown_def split: list.splits)

lemma interpreted_atoms_set_reason:
  assumes "e_preprocess env g (m_ext s) = (Subgoals [g1], x1)"
    and "e_goal2sat env g1 x1 = ((d, atoms), x2)" and "atoms \<noteq> []"
  shows "fst (internalize_goal env g s) = l_undef \<and>
         reason_unknown (snd (snd (internalize_goal env g s))) =
           ''interpreted atoms sent to SAT solver '' @ e_show_atoms env atoms"
  using assms
  by (simp add: internalize_goal_def Let_def reason_unknown_def set_reason_unknown_def)

lemma reason_after_interpreted_atoms:
  "map_sum id (\<lambda>(r, s'). (r, reason_unknown s')) (check_sat interp_engine [] None 0 demo_solver) =
     Inr (l_undef, ''interpreted atoms sent to SAT solver ...'')"
  by (simp add: check_sat_def demo_defs)

text \<open>
  C6 (the code departs from the claim). On a fresh solver with one formula, a check
  whose pipeline raises \<^verbatim>\<open>tactic_exception\<close>, and a check whose pipeline returns two
  subgoals, both return \<^verbatim>\<open>l_undef\<close>, and \<^verbatim>\<open>reason_unknown()\<close> is still the constructor's
  \<^verbatim>\<open>"no reason given"\<close>: no description of the failure can be retrieved.
\<close>

theorem no_reason_after_pipeline_failure:
  "map_sum id (\<lambda>(r, s'). (r, reason_unknown s')) (check_sat failing_engine [] None 0 demo_solver) =
     Inr (l_undef, ''no reason given'') \<and>
   map_sum id (\<lambda>(r, s'). (r, reason_unknown s')) (check_sat splitting_engine [] None 0 demo_solver) =
     Inr (l_undef, ''no reason given'')"
  by (simp add: check_sat_def demo_defs)

subsection \<open>Reassembled values\<close>

lemma exps_inv_nth: "exps_inv es \<longleftrightarrow> (\<forall>i < length es. es ! i = 2 ^ i)"
proof
  assume "exps_inv es"
  then have e: "es = map (\<lambda>i. 2 ^ i) [0..<length es]"
    by (simp add: exps_inv_def)
  show "\<forall>i < length es. es ! i = 2 ^ i"
  proof (intro allI impI)
    fix i
    assume i: "i < length es"
    have "es ! i = map (\<lambda>i. 2 ^ i) [0..<length es] ! i"
      using arg_cong [OF e, of "\<lambda>l. l ! i"] .
    also have "\<dots> = 2 ^ i" using i by simp
    finally show "es ! i = 2 ^ i" .
  qed
next
  assume "\<forall>i < length es. es ! i = 2 ^ i"
  then show "exps_inv es"
    unfolding exps_inv_def by (intro nth_equalityI) simp_all
qed

lemma exps_inv_snoc:
  assumes "es \<noteq> []" and "exps_inv es"
  shows "exps_inv (es @ [2 * last es])"
proof -
  from assms have "last es = 2 ^ (length es - 1)"
    by (simp add: last_conv_nth exps_inv_nth)
  then have "2 * last es = 2 ^ length es"
    using assms(1) by (cases "length es") simp_all
  with assms(2) show ?thesis
    by (auto simp: exps_inv_nth nth_append less_Suc_eq)
qed

lemma grow_exps_inv:
  "es \<noteq> [] \<Longrightarrow> exps_inv es \<Longrightarrow>
     exps_inv (grow_exps n es) \<and> n \<le> length (grow_exps n es) \<and> grow_exps n es \<noteq> []"
proof (induction n es rule: grow_exps.induct)
  case (1 n es)
  show ?case
  proof (cases "length es < n")
    case True
    have "es @ [2 * last es] \<noteq> []" by simp
    from "1.IH" [OF True this exps_inv_snoc [OF "1.prems"]] True show ?thesis
      by (subst (1 2 3) grow_exps.simps) simp
  next
    case False
    with "1.prems" show ?thesis by (subst (1 2 3) grow_exps.simps) simp
  qed
qed

lemma sum_bits_snoc:
  "sum_bits (ls @ [l]) es i r =
     (if \<not> lit_sign l then sum_bits ls es i r + es ! (i + length ls) else sum_bits ls es i r)"
  by (induction ls arbitrary: i r) simp_all

lemma positions_snoc:
  "{k. k < length (ls @ [l]) \<and> \<not> lit_sign ((ls @ [l]) ! k)} =
     (if \<not> lit_sign l then insert (length ls) {k. k < length ls \<and> \<not> lit_sign (ls ! k)}
      else {k. k < length ls \<and> \<not> lit_sign (ls ! k)})"
  by (auto simp: nth_append less_Suc_eq)

lemma sum_bits_eq:
  "sum_bits ls es 0 0 = (\<Sum>k \<in> {k. k < length ls \<and> \<not> lit_sign (ls ! k)}. es ! k)"
proof (induction ls rule: rev_induct)
  case Nil
  show ?case by simp
next
  case (snoc l ls)
  have fin: "finite {k. k < length ls \<and> \<not> lit_sign (ls ! k)}" by simp
  have notin: "length ls \<notin> {k. k < length ls \<and> \<not> lit_sign (ls ! k)}" by simp
  show ?case
    unfolding sum_bits_snoc positions_snoc using snoc.IH fin notin by simp
qed

lemma sum_bits_powers:
  assumes "exps_inv es" and "length ls \<le> length es"
  shows "sum_bits ls es 0 0 = (\<Sum>k \<in> {k. k < length ls \<and> \<not> lit_sign (ls ! k)}. 2 ^ k)"
proof -
  have "(\<Sum>k \<in> {k. k < length ls \<and> \<not> lit_sign (ls ! k)}. es ! k) =
        (\<Sum>k \<in> {k. k < length ls \<and> \<not> lit_sign (ls ! k)}. 2 ^ k)"
    using assms by (intro sum.cong) (auto simp: exps_inv_nth)
  then show ?thesis by (simp add: sum_bits_eq)
qed

lemma exps_inv_start: "exps_inv es \<Longrightarrow> exps_inv (if es = [] then [1] else es)"
  by (simp add: exps_inv_def)

lemma exps_inv_new_solver: "exps_inv (m_exps (new_solver x0))"
  by (simp add: new_solver_def exps_inv_def)

text \<open>
  C4. For an uninterpreted bit-vector constant \<open>v\<close> and a value sequence \<open>val\<close>,
  \<^verbatim>\<open>internalize_value\<close> yields the equation of \<open>v\<close> with the numeral, of width
  \<open>length val\<close>, whose value is the sum of \<open>2 ^ i\<close> over exactly the positions \<open>i\<close>
  whose literal is not negated (and the cache of powers stays well-formed). For an
  uninterpreted boolean constant it yields the atom itself when the literal is positive
  and its negation when the literal is negated.
\<close>

theorem internalize_value_numeral:
  assumes "exps_inv (m_exps s)"
  shows "(\<exists>s'. internalize_value val (Uninterp x (BV_sort w)) s =
            Inr (Mk_eq (Uninterp x (BV_sort w))
                   (Bv_numeral (\<Sum>i \<in> {i. i < length val \<and> \<not> lit_sign (val ! i)}. 2 ^ i) (length val)),
                 s') \<and> exps_inv (m_exps s')) \<and>
         (val \<noteq> [] \<longrightarrow>
            internalize_value val (Uninterp x Bool_sort) s =
              Inr (if lit_sign (hd val) then Mk_not (Uninterp x Bool_sort) else Uninterp x Bool_sort, s))"
proof (intro conjI impI)
  let ?e0 = "if m_exps s = [] then [1] else m_exps s"
  let ?es = "grow_exps (length val) ?e0"
  have "?e0 \<noteq> []" by simp
  from grow_exps_inv [OF this exps_inv_start [OF assms], of "length val"]
  have es: "exps_inv ?es" "length val \<le> length ?es" by simp_all
  show "\<exists>s'. internalize_value val (Uninterp x (BV_sort w)) s =
            Inr (Mk_eq (Uninterp x (BV_sort w))
                   (Bv_numeral (\<Sum>i \<in> {i. i < length val \<and> \<not> lit_sign (val ! i)}. 2 ^ i) (length val)),
                 s') \<and> exps_inv (m_exps s')"
    using es sum_bits_powers [OF es]
    by (simp add: internalize_value_def is_bool_def Let_def)
next
  assume "val \<noteq> []"
  then show "internalize_value val (Uninterp x Bool_sort) s =
      Inr (if lit_sign (hd val) then Mk_not (Uninterp x Bool_sort) else Uninterp x Bool_sort, s)"
    by (cases val) (simp_all add: internalize_value_def is_bool_def)
qed

theorem internalize_value_numeral_witness:
  "exps_inv (m_exps demo_solver) \<and>
   (\<exists>s'. internalize_value [Literal 3 False, Literal 4 True, Literal 5 False]
            (Uninterp ''b'' (BV_sort 3)) demo_solver =
          Inr (Mk_eq (Uninterp ''b'' (BV_sort 3)) (Bv_numeral 5 3), s')) \<and>
   internalize_value [Literal 7 True] (Uninterp ''p'' Bool_sort) demo_solver =
     Inr (Mk_not (Uninterp ''p'' Bool_sort), demo_solver)"
proof -
  let ?val = "[Literal 3 False, Literal 4 True, Literal 5 False]"
  have 1: "exps_inv (m_exps demo_solver)"
    by (simp add: exps_inv_def demo_defs)
  have "{i. i < length ?val \<and> \<not> lit_sign (?val ! i)} = {0, 2}"
    by (auto simp: less_Suc_eq numeral_3_eq_3)
  then have 2: "(\<Sum>i \<in> {i. i < length ?val \<and> \<not> lit_sign (?val ! i)}. (2::int) ^ i) = 5"
    by simp
  from internalize_value_numeral [OF 1, where val = ?val and x = "''b''" and w = 3]
       internalize_value_numeral [OF 1, where val = "[Literal 7 True]" and x = "''p''" and w = 3] 1
  show ?thesis unfolding 2 by auto
qed

subsection \<open>Assumption literals\<close>

lemma extract_loop_lits:
  "extract_loop d as i j ls ws = Inr (ls', ws') \<Longrightarrow> ls' = ls @ List.map_filter (map_of d) as"
proof (induction as arbitrary: i j ls ws)
  case Nil
  then show ?case by (simp add: List.map_filter_simps)
next
  case (Cons a as)
  show ?case
  proof (cases "map_of d a")
    case None
    with Cons.prems have "extract_loop d as (Suc i) j ls ws = Inr (ls', ws')" by simp
    from Cons.IH [OF this] None show ?thesis by (simp add: List.map_filter_simps)
  next
    case (Some lit)
    with Cons.prems have
      "extract_loop d as (Suc i) (Suc j) (ls @ [lit]) ws = Inr (ls', ws') \<or>
       extract_loop d as (Suc i) (Suc j) (ls @ [lit]) (ws[j := ws ! i]) = Inr (ls', ws')"
      by (simp split: if_splits)
    then have "ls' = (ls @ [lit]) @ List.map_filter (map_of d) as"
      using Cons.IH by blast
    with Some show ?thesis by (simp add: List.map_filter_simps)
  qed
qed

lemma extract_assumptions_lits:
  assumes "extract_assumptions asms d s = Inr s'"
  shows "m_asms s' = List.map_filter (map_of d) asms @ List.map_filter (map_of d) (m_asmsf s) \<and>
         m_asmsf s' = m_asmsf s \<and> m_ext s' = m_ext s \<and> m_core s' = m_core s \<and>
         m_fmls s' = m_fmls s \<and> m_unknown s' = m_unknown s"
proof -
  from assms obtain ls ws where l: "extract_loop d asms 0 0 [] (m_weights s) = Inr (ls, ws)"
    and s': "s' = s\<lparr>m_asms := ls @ List.map_filter (map_of d) (m_asmsf s), m_weights := ws\<rparr>"
    by (auto simp: extract_assumptions_def split: sum.splits)
  from extract_loop_lits [OF l] s' show ?thesis by simp
qed

lemma set_map_filter: "set (List.map_filter f xs) = {y. \<exists>x \<in> set xs. f x = Some y}"
  by (induction xs) (auto simp: List.map_filter_simps split: option.splits)

lemma map_filter_append: "List.map_filter f (xs @ ys) = List.map_filter f xs @ List.map_filter f ys"
  by (simp add: List.map_filter_def)

lemma length_map_filter_distinct:
  assumes "distinct xs" and "dom f \<subseteq> set xs"
  shows "length (List.map_filter f xs) = card (dom f)"
proof -
  have "length (List.map_filter f xs) = length (filter (\<lambda>x. f x \<noteq> None) xs)"
    by (simp add: List.map_filter_def)
  also have "\<dots> = card (set (filter (\<lambda>x. f x \<noteq> None) xs))"
    using assms(1) distinct_card [of "filter (\<lambda>x. f x \<noteq> None) xs"] by simp
  also have "set (filter (\<lambda>x. f x \<noteq> None) xs) = dom f"
    using assms(2) by (auto simp: dom_def)
  finally show ?thesis .
qed

text \<open>
  The parts of the post-condition of \<^verbatim>\<open>extract_assumptions\<close> that hold: the order of the
  literals (\<open>extract_assumptions_lits\<close>), the count when the terms looked up are pairwise
  distinct, and the compaction of the weights.
\<close>

lemma extract_assumptions_count:
  assumes "extract_assumptions asms d s = Inr s'"
    and "distinct (asms @ m_asmsf s)" and "distinct (map fst d)"
    and "fst ` set d \<subseteq> set asms \<union> set (m_asmsf s)"
  shows "length (m_asms s') = length d"
proof -
  from extract_assumptions_lits [OF assms(1)]
  have "m_asms s' = List.map_filter (map_of d) (asms @ m_asmsf s)"
    by (simp add: map_filter_append)
  moreover have "dom (map_of d) \<subseteq> set (asms @ m_asmsf s)"
    using assms(4) by (simp add: dom_map_of_conv_image_fst)
  ultimately have "length (m_asms s') = card (dom (map_of d))"
    using length_map_filter_distinct [OF assms(2)] by simp
  also have "\<dots> = card (set (map fst d))" by (simp add: dom_map_of_conv_image_fst)
  also have "\<dots> = length d" using assms(3) by (simp add: distinct_card del: set_map)
  finally show ?thesis .
qed

lemma kept_weights_Cons:
  "kept_weights d (a # as) (w # ws) =
     (if map_of d a \<noteq> None then w # kept_weights d as ws else kept_weights d as ws)"
  by (simp add: kept_weights_def)

lemma extract_loop_weights:
  "j \<le> i \<Longrightarrow> i + length as \<le> length ws \<Longrightarrow>
   \<exists>ls' ws'. extract_loop d as i j ls ws = Inr (ls', ws') \<and> length ws' = length ws \<and>
     take (j + length (kept_weights d as (drop i ws))) ws' =
       take j ws @ kept_weights d as (drop i ws)"
proof (induction as arbitrary: i j ls ws)
  case Nil
  then show ?case by (simp add: kept_weights_def)
next
  case (Cons a as)
  from Cons.prems have i: "i < length ws" by simp
  then have dr: "drop i ws = ws ! i # drop (Suc i) ws" by (simp add: Cons_nth_drop_Suc)
  show ?case
  proof (cases "map_of d a")
    case None
    from Cons.prems have "j \<le> Suc i" "Suc i + length as \<le> length ws" by simp_all
    from Cons.IH [OF this, of ls] None show ?thesis
      by (simp add: dr kept_weights_Cons)
  next
    case (Some lit)
    let ?ws = "if i \<noteq> j then ws[j := ws ! i] else ws"
    from Cons.prems i have j: "j < length ws" by simp
    have step: "extract_loop d (a # as) i j ls ws = extract_loop d as (Suc i) (Suc j) (ls @ [lit]) ?ws"
      using Some i j by auto
    have len: "length ?ws = length ws" by simp
    have "Suc j \<le> Suc i" "Suc i + length as \<le> length ?ws" using Cons.prems by simp_all
    from Cons.IH [OF this, of "ls @ [lit]"] obtain ls' ws' where
      r: "extract_loop d as (Suc i) (Suc j) (ls @ [lit]) ?ws = Inr (ls', ws')"
         "length ws' = length ?ws"
         "take (Suc j + length (kept_weights d as (drop (Suc i) ?ws))) ws' =
            take (Suc j) ?ws @ kept_weights d as (drop (Suc i) ?ws)"
      by blast
    have d1: "drop (Suc i) ?ws = drop (Suc i) ws" using Cons.prems by simp
    have t1: "take (Suc j) ?ws = take j ws @ [ws ! i]"
      using j by (auto simp: take_Suc_conv_app_nth)
    from r d1 t1 step Some show ?thesis
      by (simp add: dr kept_weights_Cons)
  qed
qed

text \<open>
  C8 (the code departs from the claim). A term that occurs twice among the terms looked
  up is found twice: with the call-supplied assumptions \<open>q, q\<close> the call succeeds, the
  dependency map has the one entry for \<open>q\<close>, and \<^verbatim>\<open>m_asms\<close> has two literals. The
  condition of \<^verbatim>\<open>SASSERT(dep2asm.size() == m_asms.size())\<close> is false there.
\<close>

theorem duplicate_assumption_count:
  "map_sum id (\<lambda>(r, d, s'). (r, m_asms s', d))
     (internalize_assumptions demo_engine [Some q_atom, Some q_atom] demo_solver) =
   Inr (l_true, [Literal 0 False, Literal 0 False], [(Some q_atom, Literal 0 False)])"
  by (simp add: internalize_assumptions_def extract_assumptions_def get_num_assumptions_def demo_defs)

subsection \<open>The unsat core\<close>

lemma internalize_goal_deps:
  assumes "deps_contract env" and "internalize_goal env g s = (l_true, d, s')"
  shows "fst ` set d \<subseteq> {d. Some d \<in> snd ` set (g_forms g)}"
proof -
  obtain tr x1 where p: "e_preprocess env g (m_ext s) = (tr, x1)"
    by (cases "e_preprocess env g (m_ext s)")
  show ?thesis
  proof (cases tr)
    case (Tactic_exception msg)
    with p assms(2) show ?thesis by (simp add: internalize_goal_def Let_def)
  next
    case (Subgoals gs)
    show ?thesis
    proof (cases gs)
      case Nil
      with p Subgoals assms(2) show ?thesis by (simp add: internalize_goal_def Let_def)
    next
      case (Cons g1 rest)
      show ?thesis
      proof (cases rest)
        case Nil
        obtain dd atoms x2 where q: "e_goal2sat env g1 x1 = ((dd, atoms), x2)"
          by (metis prod.exhaust)
        from p Subgoals Cons Nil q assms(2) have "d = dd"
          by (simp add: internalize_goal_def Let_def split: if_splits)
        moreover from assms(1) p Subgoals Cons Nil
        have "fst ` set (fst (fst (e_goal2sat env g1 x1))) \<subseteq> {d. Some d \<in> snd ` set (g_forms g)}"
          unfolding deps_contract_def by blast
        ultimately show ?thesis using q by simp
      next
        case (Cons g2 rest')
        with p Subgoals \<open>gs = g1 # rest\<close> assms(2) show ?thesis
          by (simp add: internalize_goal_def Let_def)
      qed
    qed
  qed
qed

lemma internalize_assumptions_lits:
  assumes "internalize_assumptions env asms s = Inr (l_true, d, s')"
  shows "set (m_asms s') = {l. \<exists>a \<in> set asms \<union> set (m_asmsf s). map_of d a = Some l} \<and>
         m_asmsf s' = m_asmsf s \<and>
         (deps_contract env \<longrightarrow> fst ` set d \<subseteq> set asms \<union> set (m_asmsf s))"
proof (cases "length asms = 0 \<and> get_num_assumptions s = 0")
  case True
  with assms show ?thesis
    by (auto simp: internalize_assumptions_def get_num_assumptions_def)
next
  case False
  let ?g = "\<lparr>g_forms = map (\<lambda>a. (a, Some a)) asms @ map (\<lambda>a. (a, Some a)) (m_asmsf s),
             g_models_enabled = True, g_core_enabled = True\<rparr>"
  obtain res dd s1 where g: "internalize_goal env ?g s = (res, dd, s1)"
    by (metis prod_cases3)
  from assms False g have res: "res = l_true" and dd: "dd = d"
    and ex: "extract_assumptions asms d s1 = Inr s'"
    by (auto simp: internalize_assumptions_def Let_def split: if_splits sum.splits)
  from internalize_goal_frame [OF g] have fr: "m_asmsf s1 = m_asmsf s" by simp
  from extract_assumptions_lits [OF ex] fr
  have a: "m_asms s' = List.map_filter (map_of d) asms @ List.map_filter (map_of d) (m_asmsf s)"
    and b: "m_asmsf s' = m_asmsf s" by simp_all
  have c: "deps_contract env \<longrightarrow> fst ` set d \<subseteq> set asms \<union> set (m_asmsf s)"
  proof
    assume dc: "deps_contract env"
    from internalize_goal_deps [OF dc g [unfolded res dd]]
    show "fst ` set d \<subseteq> set asms \<union> set (m_asmsf s)"
      by (auto simp: image_iff)
  qed
  from a b c show ?thesis by (auto simp: set_map_filter)
qed

lemma internalize_assumptions_result:
  "internalize_assumptions env asms s = Inr (r, d, s') \<Longrightarrow> r = l_true \<or> r = l_undef"
  by (auto simp: internalize_assumptions_def Let_def split: prod.splits if_splits sum.splits
           dest: internalize_goal_result')

lemma internalize_assumptions_error:
  "internalize_assumptions env asms s = Inl e \<Longrightarrow> e = Out_of_range"
proof -
  have loop: "\<And>d as i j ls (ws :: 'b list) e. extract_loop d as i j ls ws = Inl e \<Longrightarrow> e = Out_of_range"
  proof -
    fix d as i j ls and ws :: "'b list" and e
    show "extract_loop d as i j ls ws = Inl e \<Longrightarrow> e = Out_of_range"
      by (induction as arbitrary: i j ls ws) (auto split: option.splits if_splits)
  qed
  assume "internalize_assumptions env asms s = Inl e"
  then show ?thesis
    by (auto simp: internalize_assumptions_def extract_assumptions_def Let_def
             split: prod.splits if_splits sum.splits dest: loop)
qed

lemma fold_asm2dep_Some:
  "fold (\<lambda>(e, l) m. m(lit_index l \<mapsto> e)) d m0 i = Some e \<Longrightarrow>
     m0 i = Some e \<or> (\<exists>l. (e, l) \<in> set d \<and> lit_index l = i)"
proof (induction d arbitrary: m0)
  case Nil
  then show ?case by simp
next
  case (Cons p d)
  obtain e1 l1 where p: "p = (e1, l1)" by (cases p)
  from Cons.prems p have "fold (\<lambda>(e, l) m. m(lit_index l \<mapsto> e)) d (m0(lit_index l1 \<mapsto> e1)) i = Some e"
    by (simp del: fun_upd_apply)
  from Cons.IH [OF this] p show ?case by (auto split: if_splits)
qed

lemma fold_asm2dep_dom:
  "m0 i \<noteq> None \<or> (\<exists>e l. (e, l) \<in> set d \<and> lit_index l = i) \<Longrightarrow>
     fold (\<lambda>(e, l) m. m(lit_index l \<mapsto> e)) d m0 i \<noteq> None"
proof (induction d arbitrary: m0)
  case Nil
  then show ?case by simp
next
  case (Cons p d)
  obtain e1 l1 where p: "p = (e1, l1)" by (cases p)
  have "(m0(lit_index l1 \<mapsto> e1)) i \<noteq> None \<or> (\<exists>e l. (e, l) \<in> set d \<and> lit_index l = i)"
    using Cons.prems p by auto
  then have "fold (\<lambda>(e, l) m. m(lit_index l \<mapsto> e)) d (m0(lit_index l1 \<mapsto> e1)) i \<noteq> None"
    by (rule Cons.IH [of "m0(lit_index l1 \<mapsto> e1)"])
  with p show ?case by (simp del: fun_upd_apply)
qed

lemma asm2dep_Some: "extract_asm2dep d i = Some e \<Longrightarrow> \<exists>l. (e, l) \<in> set d \<and> lit_index l = i"
  using fold_asm2dep_Some [of d Map.empty i e] by (simp add: extract_asm2dep_def)

lemma asm2dep_dom: "(e, l) \<in> set d \<Longrightarrow> extract_asm2dep d (lit_index l) \<noteq> None"
  using fold_asm2dep_dom [of Map.empty "lit_index l" d] unfolding extract_asm2dep_def by blast

lemma core_loop_ok:
  "\<forall>c \<in> set cs. a2d (lit_index c) \<noteq> None \<Longrightarrow>
     core_loop a2d cs s = Inr (s\<lparr>m_core := m_core s @ map (\<lambda>c. the (a2d (lit_index c))) cs\<rparr>)"
  by (induction cs arbitrary: s) auto

lemma extract_core_ok:
  assumes "\<forall>c \<in> set (e_get_core env (m_ext s)). extract_asm2dep d (lit_index c) \<noteq> None"
  shows "extract_core env d s =
           Inr (s\<lparr>m_core := map (\<lambda>c. the (extract_asm2dep d (lit_index c))) (e_get_core env (m_ext s))\<rparr>)"
  using core_loop_ok [OF assms, of "s\<lparr>m_core := []\<rparr>"] by (simp add: extract_core_def Let_def)

lemma core_lookup_ok:
  assumes ia: "internalize_assumptions env asms s2 = Inr (l_true, d, s3)"
    and cc: "core_contract env"
    and ck: "e_check env (m_asms s3) ws mw (m_ext s3) = (l_false, x)"
  shows "\<forall>c \<in> set (e_get_core env x). extract_asm2dep d (lit_index c) \<noteq> None"
proof
  fix c
  assume "c \<in> set (e_get_core env x)"
  with cc ck have "c \<in> set (m_asms s3)"
    unfolding core_contract_def by blast
  with internalize_assumptions_lits [OF ia] obtain a where "map_of d a = Some c"
    by auto
  then have "(a, c) \<in> set d" by (rule map_of_SomeD)
  then show "extract_asm2dep d (lit_index c) \<noteq> None" by (rule asm2dep_dom)
qed

lemma core_terms_in_dom:
  assumes "\<forall>c \<in> set cs. extract_asm2dep d (lit_index c) \<noteq> None"
  shows "set (map (\<lambda>c. the (extract_asm2dep d (lit_index c))) cs) \<subseteq> fst ` set d"
proof
  fix e
  assume "e \<in> set (map (\<lambda>c. the (extract_asm2dep d (lit_index c))) cs)"
  then obtain c where c: "c \<in> set cs" and e: "e = the (extract_asm2dep d (lit_index c))"
    by auto
  from assms c obtain e' where e': "extract_asm2dep d (lit_index c) = Some e'" by auto
  from asm2dep_Some [OF e'] obtain l where "(e', l) \<in> set d" by blast
  with e e' show "e \<in> fst ` set d" by (auto simp: image_iff intro: bexI [of _ "(e', l)"])
qed

lemma core_contract_demo: "core_contract demo_engine"
  by (auto simp: core_contract_def demo_engine_def dest: in_set_takeD)

lemma demo_deps_keys: "fst ` set (demo_deps g) \<subseteq> {d. Some d \<in> snd ` set (g_forms g)}"
proof
  fix k
  assume "k \<in> fst ` set (demo_deps g)"
  then obtain l where "(k, l) \<in> set (demo_deps g)" by auto
  then have "k \<in> set (remdups (List.map_filter snd (g_forms g)))"
    unfolding demo_deps_def Let_def by (rule set_zip_leftD)
  then have "k \<in> set (List.map_filter snd (g_forms g))" by simp
  then obtain x where "x \<in> set (g_forms g)" "snd x = Some k"
    by (auto simp: set_map_filter)
  then show "k \<in> {d. Some d \<in> snd ` set (g_forms g)}"
    by (metis imageI mem_Collect_eq)
qed

lemma deps_contract_demo: "deps_contract demo_engine"
  unfolding deps_contract_def using demo_deps_keys by (simp add: demo_engine_def)

text \<open>
  C5. With collaborators that keep their contracts, \<^verbatim>\<open>check_sat\<close> never fails the
  \<^verbatim>\<open>VERIFY\<close> of a core lookup, and whenever it returns unsatisfiable with a non-empty
  assumption literal list, every term of the new core is one of the call-supplied
  assumptions or a standing assumption, and the new core is exactly the image of the
  engine's core under the inverted dependency map of that call (whose domain lies in that
  union): nothing of the previous core is left.
\<close>

theorem check_sat_core:
  assumes dc: "deps_contract env" and cc: "core_contract env"
  shows "check_sat env asms weights mw s \<noteq> Inl Verify_failed \<and>
         (\<forall>s'. check_sat env asms weights mw s = Inr (l_false, s') \<and> m_asms s' \<noteq> [] \<longrightarrow>
            set (m_core s') \<subseteq> set asms \<union> set (m_asmsf s) \<and>
            (\<exists>d. fst ` set d \<subseteq> set asms \<union> set (m_asmsf s) \<and>
                 m_core s' = map (\<lambda>c. the (extract_asm2dep d (lit_index c)))
                               (e_get_core env (m_ext s'))))"
    (is "?A \<and> ?B")
proof -
  let ?s1 = "s\<lparr>m_weights := (case weights of None \<Rightarrow> [] | Some ws \<Rightarrow> take (length asms) ws),
               m_ext := e_pop_to_base_level env (m_ext s), m_model := None\<rparr>"
  obtain r1 s2 where f: "internalize_formulas env ?s1 = (r1, s2)"
    by (cases "internalize_formulas env ?s1")
  from internalize_formulas_result [of env ?s1] f have r1: "r1 = l_true \<or> r1 = l_undef" by simp
  from internalize_formulas_frame [OF f] have asmsf2: "m_asmsf s2 = m_asmsf s" by simp
  show ?thesis
  proof (cases "r1 = l_true")
    case False
    with r1 have "check_sat env asms weights mw s = Inr (l_undef, s2)"
      using f by (auto simp: check_sat_def Let_def)
    then show ?thesis by simp
  next
    case True
    show ?thesis
    proof (cases "internalize_assumptions env asms s2")
      case (Inl e)
      from internalize_assumptions_error [OF Inl] Inl True f show ?thesis
        by (simp add: check_sat_def Let_def)
    next
      case (Inr t)
      obtain r2 d s3 where t: "t = (r2, d, s3)" by (cases t)
      from internalize_assumptions_result [OF Inr [unfolded t]]
      have r2: "r2 = l_true \<or> r2 = l_undef" .
      show ?thesis
      proof (cases "r2 = l_true")
        case False
        with r2 True f Inr t have "check_sat env asms weights mw s = Inr (l_undef, s3)"
          by (auto simp: check_sat_def Let_def)
        then show ?thesis by simp
      next
        case r2t: True
        note ia = Inr [unfolded t r2t]
        obtain r x where ck: "e_check env (m_asms s3) (m_weights s3) mw (m_ext s3) = (r, x)"
          by (cases "e_check env (m_asms s3) (m_weights s3) mw (m_ext s3)")
        from internalize_assumptions_lits [OF ia] dc asmsf2
        have dom: "fst ` set d \<subseteq> set asms \<union> set (m_asmsf s)" by simp
        show ?thesis
        proof (cases r)
          case l_undef
          with True f ia ck have "check_sat env asms weights mw s = Inr (l_undef, s3\<lparr>m_ext := x\<rparr>)"
            by (simp add: check_sat_def Let_def)
          then show ?thesis by simp
        next
          case l_true
          with True f ia ck have
            "check_sat env asms weights mw s = Inr (l_true, s3\<lparr>m_ext := x\<rparr>) \<or>
             check_sat env asms weights mw s = Inl (Default_exception ''bad state'')"
            by (auto simp: check_sat_def Let_def check_assumptions_def split: sum.splits)
          then show ?thesis by auto
        next
          case l_false
          show ?thesis
          proof (cases "m_asms s3 = []")
            case True
            with l_false \<open>r1 = l_true\<close> f ia ck
            have "check_sat env asms weights mw s = Inr (l_false, s3\<lparr>m_ext := x\<rparr>)"
              by (simp add: check_sat_def Let_def)
            with True show ?thesis by auto
          next
            case False
            let ?core = "map (\<lambda>c. the (extract_asm2dep d (lit_index c))) (e_get_core env x)"
            from core_lookup_ok [OF ia cc ck [unfolded l_false]]
            have ok: "\<forall>c \<in> set (e_get_core env x). extract_asm2dep d (lit_index c) \<noteq> None" .
            then have "\<forall>c \<in> set (e_get_core env (m_ext (s3\<lparr>m_ext := x\<rparr>))).
                         extract_asm2dep d (lit_index c) \<noteq> None" by simp
            from extract_core_ok [OF this]
            have ec: "extract_core env d (s3\<lparr>m_ext := x\<rparr>) = Inr (s3\<lparr>m_ext := x, m_core := ?core\<rparr>)"
              by simp
            from False l_false \<open>r1 = l_true\<close> f ia ck ec
            have res: "check_sat env asms weights mw s = Inr (l_false, s3\<lparr>m_ext := x, m_core := ?core\<rparr>)"
              by (simp add: check_sat_def Let_def)
            from core_terms_in_dom [OF ok] dom
            have sub: "set ?core \<subseteq> set asms \<union> set (m_asmsf s)" by blast
            have ?A using res by simp
            moreover have ?B
            proof (intro allI impI)
              fix s'
              assume "check_sat env asms weights mw s = Inr (l_false, s') \<and> m_asms s' \<noteq> []"
              with res have s': "s' = s3\<lparr>m_ext := x, m_core := ?core\<rparr>" by simp
              show "set (m_core s') \<subseteq> set asms \<union> set (m_asmsf s) \<and>
                    (\<exists>d. fst ` set d \<subseteq> set asms \<union> set (m_asmsf s) \<and>
                         m_core s' = map (\<lambda>c. the (extract_asm2dep d (lit_index c)))
                                       (e_get_core env (m_ext s')))"
                using sub dom unfolding s' by (intro conjI exI [of _ d]) simp_all
            qed
            ultimately show ?thesis ..
          qed
        qed
      qed
    qed
  qed
qed

theorem check_sat_core_witness:
  "deps_contract demo_engine \<and> core_contract demo_engine \<and>
   check_sat demo_engine [Some q_atom] None 0 cached_solver \<noteq> Inl Verify_failed \<and>
   map_sum id (\<lambda>(r, s'). (r, m_asms s', m_core s')) (check_sat demo_engine [Some q_atom] None 0 cached_solver) =
     Inr (l_false, [Literal 0 False], [Some q_atom]) \<and>
   set [Some q_atom] \<subseteq> set [Some q_atom] \<union> set (m_asmsf cached_solver)"
proof -
  have "map_sum id (\<lambda>(r, s'). (r, m_asms s', m_core s')) (check_sat demo_engine [Some q_atom] None 0 cached_solver) =
     Inr (l_false, [Literal 0 False], [Some q_atom])"
    by (simp add: check_sat_def internalize_assumptions_def extract_assumptions_def
        get_num_assumptions_def check_assumptions_def extract_core_def extract_asm2dep_def
        lit_index_def demo_defs)
  with check_sat_core [OF deps_contract_demo core_contract_demo,
         where asms = "[Some q_atom]" and weights = None and mw = 0 and s = cached_solver]
       deps_contract_demo core_contract_demo
  show ?thesis by simp
qed

subsection \<open>Cloning\<close>

lemma foldl_push_fmls:
  "foldl (\<lambda>r f. r\<lparr>m_fmls := m_fmls r @ [tr f]\<rparr>) r0 fs = r0\<lparr>m_fmls := m_fmls r0 @ map tr fs\<rparr>"
  by (induction fs arbitrary: r0) simp_all

lemma foldl_push_asmsf:
  "foldl (\<lambda>r f. r\<lparr>m_asmsf := m_asmsf r @ [tr f]\<rparr>) r0 fs = r0\<lparr>m_asmsf := m_asmsf r0 @ map tr fs\<rparr>"
  by (induction fs arbitrary: r0) simp_all

text \<open>
  C9. \<^verbatim>\<open>translate\<close> at a nonzero scope depth throws and gives no result; at scope depth
  zero it returns a fresh instance, at depth zero with frontier zero, whose formula
  sequence and assumption sequence are the translations of the original's, in order.
\<close>

theorem translate_base_level_only:
  "(0 < m_num_scopes s \<longrightarrow>
      translate tr x0 s = Inl (Default_exception ''Cannot translate sat solver at non-base level'')) \<and>
   (m_num_scopes s = 0 \<longrightarrow>
      (\<exists>r. translate tr x0 s = Inr r \<and> m_fmls r = map tr (m_fmls s) \<and>
           m_asmsf r = map tr (m_asmsf s) \<and> m_num_scopes r = 0 \<and> m_fmls_head r = 0))"
  by (simp add: translate_def Let_def foldl_push_fmls foldl_push_asmsf new_solver_def)

theorem translate_base_level_only_witness:
  "0 < m_num_scopes (push demo_engine demo_solver) \<and>
   translate (map_option Mk_not) ([], []) (push demo_engine demo_solver) =
     Inl (Default_exception ''Cannot translate sat solver at non-base level'') \<and>
   m_num_scopes demo_solver = 0 \<and>
   (\<exists>r. translate (map_option Mk_not) ([], []) demo_solver = Inr r \<and>
        m_fmls r = [Some (Mk_not p_atom)] \<and> m_asmsf r = [])"
proof -
  have 1: "0 < m_num_scopes (push demo_engine demo_solver)" by (simp add: push_lims)
  have 2: "m_num_scopes demo_solver = 0" by (simp add: demo_defs)
  have 3: "m_fmls demo_solver = [Some p_atom]" "m_asmsf demo_solver = []" by (simp_all add: demo_defs)
  from translate_base_level_only
         [where s = "push demo_engine demo_solver" and tr = "map_option Mk_not" and ?x0.0 = "([], [])"]
       translate_base_level_only
         [where s = demo_solver and tr = "map_option Mk_not" and ?x0.0 = "([], [])"] 1 2 3
  show ?thesis by auto
qed

subsection \<open>Mutexes\<close>

lemma mutex_step_inv:
  assumes "\<forall>l \<in> set (fst acc). snd acc (lit_index l) \<noteq> None"
  shows "\<forall>l \<in> set (fst (mutex_step env x acc e)). snd (mutex_step env x acc e) (lit_index l) \<noteq> None"
  using assms by (auto simp: mutex_step_def split: prod.splits option.splits)

lemma foldl_mutex_step_inv:
  "\<forall>l \<in> set (fst acc). snd acc (lit_index l) \<noteq> None \<Longrightarrow>
   \<forall>l \<in> set (fst (foldl (mutex_step env x) acc vars)).
      snd (foldl (mutex_step env x) acc vars) (lit_index l) \<noteq> None"
proof (induction vars arbitrary: acc)
  case Nil
  then show ?case by simp
next
  case (Cons e es)
  from Cons.IH [OF mutex_step_inv [OF Cons.prems]] show ?case by simp
qed

lemma mutex_back_total:
  "\<forall>l \<in> set ls. m (lit_index l) \<noteq> None \<Longrightarrow> \<exists>es. mutex_back m ls = Inr es"
  by (induction ls) auto

lemma mutexes_back_total:
  "\<forall>g \<in> set gs. \<forall>l \<in> set g. m (lit_index l) \<noteq> None \<Longrightarrow> \<exists>ess. mutexes_back m gs = Inr ess"
proof (induction gs)
  case Nil
  show ?case by simp
next
  case (Cons g gs)
  then obtain es where "mutex_back m g = Inr es"
    using mutex_back_total [of g m] by auto
  moreover from Cons obtain ess where "mutexes_back m gs = Inr ess" by auto
  ultimately show ?case by simp
qed

text \<open>
  C10. Whatever the atoms and the state, a result code that \<^verbatim>\<open>find_mutexes\<close> returns is
  \<^verbatim>\<open>l_true\<close>, never unsatisfiable or unknown; and it does return when the engine groups
  only literals it was given.
\<close>

theorem find_mutexes_l_true:
  "(\<forall>r ms s'. find_mutexes env vars mutexes s = Inr (r, ms, s') \<longrightarrow> r = l_true) \<and>
   (mutex_contract env \<longrightarrow> (\<exists>ms s'. find_mutexes env vars mutexes s = Inr (l_true, ms, s')))"
proof (intro conjI impI allI)
  fix r ms s'
  assume "find_mutexes env vars mutexes s = Inr (r, ms, s')"
  then show "r = l_true"
    by (auto simp: find_mutexes_def split: prod.splits sum.splits)
next
  assume c: "mutex_contract env"
  obtain ls lit2var where f: "foldl (mutex_step env (m_ext s)) ([], Map.empty) vars = (ls, lit2var)"
    by (cases "foldl (mutex_step env (m_ext s)) ([], Map.empty) vars")
  obtain gs x where e: "e_find_mutexes env ls (m_ext s) = (gs, x)"
    by (cases "e_find_mutexes env ls (m_ext s)")
  have known: "\<forall>l \<in> set ls. lit2var (lit_index l) \<noteq> None"
    using foldl_mutex_step_inv [of "([], Map.empty)" env "m_ext s" vars] f by simp
  have "\<forall>g \<in> set gs. set g \<subseteq> set ls"
    using c e unfolding mutex_contract_def by (metis fst_conv)
  with known have "\<forall>g \<in> set gs. \<forall>l \<in> set g. lit2var (lit_index l) \<noteq> None" by blast
  from mutexes_back_total [OF this] obtain ess where "mutexes_back lit2var gs = Inr ess" ..
  with f e show "\<exists>ms s'. find_mutexes env vars mutexes s = Inr (l_true, ms, s')"
    by (simp add: find_mutexes_def)
qed

theorem find_mutexes_l_true_witness:
  "mutex_contract demo_engine \<and>
   (\<exists>ms s'. find_mutexes demo_engine [p_atom, Mk_not q_atom, Mk_eq p_atom q_atom] [] demo_solver =
             Inr (l_true, ms, s'))"
proof -
  have 1: "mutex_contract demo_engine" by (simp add: mutex_contract_def demo_engine_def)
  from find_mutexes_l_true [where env = demo_engine and s = demo_solver and mutexes = "[]"
         and vars = "[p_atom, Mk_not q_atom, Mk_eq p_atom q_atom]"] 1
  show ?thesis by blast
qed

end
